theory Spec2Isabelle
  imports Main
begin

section \<open>Scrollback sanitizer (shared/terminal-scrollback-sanitizer.ts)\<close>

text \<open>
  A JavaScript string is a sequence of UTF-16 code units. Each code unit is modelled by its
  numeric value, so \<open>length\<close> is the \<open>.length\<close> of the source string.
\<close>

type_synonym jsstring = "nat list"

subsection \<open>A backtracking matcher for the regular-expression fragment the patterns use\<close>

text \<open>
  The patterns of the source use literals, character classes, concatenation, alternation,
  greedy bounded and unbounded repetition, the anchors \<open>^\<close> and \<open>$\<close> (no \<open>m\<close> flag), one
  positive lookahead and one capture group. A class is a list of inclusive code-unit ranges.
\<close>

datatype rx =
    Chr nat
  | Cls "(nat \<times> nat) list"
  | Seq rx rx
  | Alt rx rx
  | Rep nat "nat option" rx
  | Bol
  | Eol
  | Look rx
  | Grp rx

text \<open>
  A match state: the index reached in the subject string, the part of the subject that is
  still to be read, and the text captured by group 1 (if it took part in the match).
\<close>

record mstate =
  pos :: nat
  rest :: jsstring
  cap1 :: "jsstring option"

fun in_class :: "(nat \<times> nat) list \<Rightarrow> nat \<Rightarrow> bool" where
  "in_class [] c = False"
| "in_class ((lo, hi) # rs) c = ((lo \<le> c \<and> c \<le> hi) \<or> in_class rs c)"

definition advance :: "mstate \<Rightarrow> mstate" where
  "advance m = m\<lparr>pos := Suc (pos m), rest := tl (rest m)\<rparr>"

definition dec_max :: "nat option \<Rightarrow> nat option" where
  "dec_max hi = (case hi of None \<Rightarrow> None | Some k \<Rightarrow> Some (k - 1))"

text \<open>
  Greedy repetition as in ECMAScript's RepeatMatcher: while the minimum is not reached an
  iteration is mandatory; afterwards one more iteration is tried first (and must consume
  input), and stopping here is the last alternative. The result lists every way to match,
  most preferred first; the engine takes the head.
\<close>

function rep :: "(mstate \<Rightarrow> mstate list) \<Rightarrow> nat \<Rightarrow> nat option \<Rightarrow> mstate \<Rightarrow> mstate list" where
  "rep f lo hi m =
     (if hi = Some 0 then [m]
      else if 0 < lo then concat (map (\<lambda>m'. rep f (lo - 1) (dec_max hi) m') (f m))
      else concat (map (\<lambda>m'. if length (rest m') < length (rest m)
                               then rep f 0 (dec_max hi) m' else []) (f m)) @ [m])"
  by pat_completeness auto
termination
  by (relation "measures [\<lambda>(f, lo, hi, m). lo, \<lambda>(f, lo, hi, m). length (rest m)]") auto

declare rep.simps [simp del]

primrec rmatch :: "rx \<Rightarrow> mstate \<Rightarrow> mstate list" where
  "rmatch (Chr c) m =
     (case rest m of [] \<Rightarrow> [] | x # xs \<Rightarrow> if x = c then [advance m] else [])"
| "rmatch (Cls rs) m =
     (case rest m of [] \<Rightarrow> [] | x # xs \<Rightarrow> if in_class rs x then [advance m] else [])"
| "rmatch (Seq a b) m = concat (map (rmatch b) (rmatch a m))"
| "rmatch (Alt a b) m = rmatch a m @ rmatch b m"
| "rmatch (Rep lo hi a) m = rep (rmatch a) lo hi m"
| "rmatch Bol m = (if pos m = 0 then [m] else [])"
| "rmatch Eol m = (if rest m = [] then [m] else [])"
| "rmatch (Look a) m = (if rmatch a m = [] then [] else [m])"
| "rmatch (Grp a) m =
     map (\<lambda>m'. m'\<lparr>cap1 := Some (take (pos m' - pos m) (rest m))\<rparr>) (rmatch a m)"

fun seqs :: "rx list \<Rightarrow> rx" where
  "seqs [] = Rep 0 (Some 0) Bol"
| "seqs [r] = r"
| "seqs (r # rs) = Seq r (seqs rs)"

text \<open>\<open>regex.exec\<close> at one index: the preferred match starting exactly there, if any.\<close>

definition match_at :: "rx \<Rightarrow> nat \<Rightarrow> jsstring \<Rightarrow> mstate option" where
  "match_at r i s =
     (case rmatch r \<lparr>pos = i, rest = s, cap1 = None\<rparr> of [] \<Rightarrow> None | m # ms \<Rightarrow> Some m)"

subsection \<open>\<open>String.prototype.replace\<close> with a global pattern\<close>

text \<open>The two replacement templates of the source: \<open>""\<close> and \<open>"$1"\<close>.\<close>

datatype template = Nothing | Group1

fun expand :: "template \<Rightarrow> mstate \<Rightarrow> jsstring" where
  "expand Nothing m = []"
| "expand Group1 m = (case cap1 m of None \<Rightarrow> [] | Some c \<Rightarrow> c)"

text \<open>
  The scan goes left to right from index 0. Where the pattern matches, the replacement is
  emitted and the scan resumes after the match (one code unit further on after an empty
  match); elsewhere the code unit is copied.
\<close>

function replace_from :: "rx \<Rightarrow> template \<Rightarrow> nat \<Rightarrow> jsstring \<Rightarrow> jsstring" where
  "replace_from r t i s =
     (case match_at r i s of
        None \<Rightarrow> (case s of [] \<Rightarrow> [] | x # xs \<Rightarrow> x # replace_from r t (Suc i) xs)
      | Some m \<Rightarrow>
          (if pos m - i = 0 \<or> s = []
           then expand t m @ (case s of [] \<Rightarrow> [] | x # xs \<Rightarrow> x # replace_from r t (Suc i) xs)
           else expand t m @ replace_from r t (pos m) (drop (pos m - i) s)))"
  by pat_completeness auto
termination
  by (relation "measure (\<lambda>(r, t, i, s). length s)") (auto simp: neq_Nil_conv)

declare replace_from.simps [simp del]

definition replace :: "jsstring \<Rightarrow> rx \<Rightarrow> template \<Rightarrow> jsstring" where
  "replace s r t = replace_from r t 0 s"

subsection \<open>The patterns\<close>

definition ESC :: nat where "ESC = 27"

abbreviation (input) digit :: rx where "digit \<equiv> Cls [(48, 57)]"
abbreviation (input) opt :: "rx \<Rightarrow> rx" where "opt r \<equiv> Rep 0 (Some 1) r"
abbreviation (input) star :: "rx \<Rightarrow> rx" where "star r \<equiv> Rep 0 None r"
abbreviation (input) plus :: "rx \<Rightarrow> rx" where "plus r \<equiv> Rep 1 None r"

text \<open>\<open>[?>]\<close>, \<open>[0-9;]\<close>, \<open>[Mm]\<close> and \<open>\s\<close> (ECMAScript WhiteSpace and LineTerminator).\<close>

definition cls_qgt :: rx where "cls_qgt = Cls [(63, 63), (62, 62)]"
definition cls_num :: rx where "cls_num = Cls [(48, 57), (59, 59)]"
definition cls_Mm :: rx where "cls_Mm = Cls [(77, 77), (109, 109)]"
definition cls_space :: rx where
  "cls_space = Cls [(9, 13), (32, 32), (160, 160), (5760, 5760), (8192, 8202),
                    (8232, 8233), (8239, 8239), (8287, 8287), (12288, 12288), (65279, 65279)]"

text \<open>\<open>ESC \[ [?>]? [0-9;]* c\<close>\<close>
definition DA_RESPONSE_RAW :: rx where
  "DA_RESPONSE_RAW = seqs [Chr ESC, Chr 91, opt cls_qgt, star cls_num, Chr 99]"

text \<open>\<open>ESC \[ [?>]? [0-9;]* R\<close>\<close>
definition CPR_RESPONSE_RAW :: rx where
  "CPR_RESPONSE_RAW = seqs [Chr ESC, Chr 91, opt cls_qgt, star cls_num, Chr 82]"

text \<open>\<open>ESC \[ [?>]? [0-9;]* \$ y\<close>\<close>
definition MODE_REPORT_RAW :: rx where
  "MODE_REPORT_RAW = seqs [Chr ESC, Chr 91, opt cls_qgt, star cls_num, Chr 36, Chr 121]"

text \<open>\<open>ESC \[ < \d+ (?:;\d+){2} [Mm]\<close>\<close>
definition MOUSE_SGR_RAW :: rx where
  "MOUSE_SGR_RAW = seqs [Chr ESC, Chr 91, Chr 60, plus digit,
                         Rep 2 (Some 2) (Seq (Chr 59) (plus digit)), cls_Mm]"

text \<open>The caret-escaped variants: \<open>\^ \[ \[ ...\<close>\<close>
definition DA_RESPONSE_CARET :: rx where
  "DA_RESPONSE_CARET = seqs [Chr 94, Chr 91, Chr 91, opt cls_qgt, star cls_num, Chr 99]"

definition CPR_RESPONSE_CARET :: rx where
  "CPR_RESPONSE_CARET = seqs [Chr 94, Chr 91, Chr 91, opt cls_qgt, star cls_num, Chr 82]"

definition MODE_REPORT_CARET :: rx where
  "MODE_REPORT_CARET =
     seqs [Chr 94, Chr 91, Chr 91, opt cls_qgt, star cls_num, Chr 36, Chr 121]"

definition MOUSE_SGR_CARET :: rx where
  "MOUSE_SGR_CARET = seqs [Chr 94, Chr 91, Chr 91, Chr 60, plus digit,
                           Rep 2 (Some 2) (Seq (Chr 59) (plus digit)), cls_Mm]"

text \<open>\<open>(?: \d{1,3} ; \d{1,3} ; \d{1,3} M ){2,}\<close>\<close>
definition MOUSE_SGR_PAYLOAD_RUN :: rx where
  "MOUSE_SGR_PAYLOAD_RUN =
     Rep 2 None (seqs [Rep 1 (Some 3) digit, Chr 59, Rep 1 (Some 3) digit, Chr 59,
                       Rep 1 (Some 3) digit, Chr 77])"

text \<open>\<open>(^|\s) [?>]? \d{1,4} (?: ; \d{1,4} ){1,4} c (?=$|\s)\<close>\<close>
definition DA_PAYLOAD :: rx where
  "DA_PAYLOAD =
     seqs [Grp (Alt Bol cls_space), opt cls_qgt, Rep 1 (Some 4) digit,
           Rep 1 (Some 4) (Seq (Chr 59) (Rep 1 (Some 4) digit)), Chr 99,
           Look (Alt Eol cls_space)]"

definition PATTERNS :: "rx list" where
  "PATTERNS = [DA_RESPONSE_RAW, DA_RESPONSE_CARET, CPR_RESPONSE_RAW, CPR_RESPONSE_CARET,
               MODE_REPORT_RAW, MODE_REPORT_CARET, MOUSE_SGR_RAW, MOUSE_SGR_CARET,
               MOUSE_SGR_PAYLOAD_RUN]"

subsection \<open>\<open>sanitizeTerminalScrollback\<close>\<close>

fun starts_with :: "jsstring \<Rightarrow> jsstring \<Rightarrow> bool" where
  "starts_with s [] = True"
| "starts_with [] (p # ps) = False"
| "starts_with (x # xs) (p # ps) = (x = p \<and> starts_with xs ps)"

fun includes_js :: "jsstring \<Rightarrow> jsstring \<Rightarrow> bool" where
  "includes_js [] p = (p = [])"
| "includes_js (x # xs) p = (starts_with (x # xs) p \<or> includes_js xs p)"

definition sanitizeTerminalScrollback :: "jsstring \<Rightarrow> jsstring" where
  "sanitizeTerminalScrollback data =
     (if data = [] then data
      else if \<not> includes_js data [ESC] \<and> \<not> includes_js data [94, 91] \<and> \<not> includes_js data [59]
      then data
      else let sanitized = foldl (\<lambda>s pattern. replace s pattern Nothing) data PATTERNS
           in replace sanitized DA_PAYLOAD Group1)"

subsection \<open>Where a pattern matches\<close>

text \<open>
  Whether a pattern matches somewhere in a string \<open>s\<close>, tried at every index from \<open>i\<close> (the
  index of the head of \<open>s\<close>) to the end of the string; and a string in which none of the
  ten patterns matches anywhere.
\<close>

fun occurs_from :: "rx \<Rightarrow> nat \<Rightarrow> jsstring \<Rightarrow> bool" where
  "occurs_from r i [] = (match_at r i [] \<noteq> None)"
| "occurs_from r i (x # xs) = (match_at r i (x # xs) \<noteq> None \<or> occurs_from r (Suc i) xs)"

definition artifact_free :: "jsstring \<Rightarrow> bool" where
  "artifact_free s \<longleftrightarrow> list_all (\<lambda>pattern. \<not> occurs_from pattern 0 s) (PATTERNS @ [DA_PAYLOAD])"

section \<open>Attach scheduler (\<open>scheduleTerminalAttach\<close>, \<open>pump\<close>)\<close>

text \<open>
  An \<open>AttachTask\<close> object. Its \<open>run\<close> callback is code of the caller; the model records
  when it is invoked (see \<open>started\<close> below) instead of storing it.
\<close>

record AttachTask =
  paneId :: string
  priority :: int
  enqueuedAt :: int
  canceled :: bool

definition MAX_CONCURRENT_ATTACHES :: int where
  "MAX_CONCURRENT_ATTACHES = 3"

text \<open>
  The module state. Task objects are shared between the queue, the map and the closures
  handed out, and their \<open>canceled\<close> flag is mutated in place, so the objects live in a
  store \<open>tasks\<close> indexed by reference; \<open>nextRef\<close> is the next reference to allocate.
  Two fields only observe: \<open>started\<close> lists the tasks whose \<open>run\<close> callback has been
  invoked, in order, and \<open>running\<close> those of them whose completion callback has not been
  called yet.
\<close>

record scheduler =
  inFlight :: int
  queue :: "nat list"
  pendingByPaneId :: "string \<rightharpoonup> nat"
  tasks :: "nat \<Rightarrow> AttachTask"
  nextRef :: nat
  started :: "nat list"
  running :: "nat list"

definition init_scheduler :: scheduler where
  "init_scheduler =
     \<lparr>inFlight = 0, queue = [], pendingByPaneId = Map.empty,
      tasks = (\<lambda>_. \<lparr>paneId = [], priority = 0, enqueuedAt = 0, canceled = False\<rparr>),
      nextRef = 0, started = [], running = []\<rparr>"

text \<open>
  The comparator \<open>(a, b) => a.priority - b.priority || a.enqueuedAt - b.enqueuedAt\<close> and
  the stable \<open>Array.prototype.sort\<close> with it.
\<close>

definition compare_tasks :: "AttachTask \<Rightarrow> AttachTask \<Rightarrow> int" where
  "compare_tasks a b =
     (if priority a - priority b \<noteq> 0 then priority a - priority b
      else enqueuedAt a - enqueuedAt b)"

fun insort_task :: "(nat \<Rightarrow> AttachTask) \<Rightarrow> nat \<Rightarrow> nat list \<Rightarrow> nat list" where
  "insort_task h t [] = [t]"
| "insort_task h t (u # us) =
     (if compare_tasks (h t) (h u) \<le> 0 then t # u # us else u # insort_task h t us)"

definition sort_queue :: "(nat \<Rightarrow> AttachTask) \<Rightarrow> nat list \<Rightarrow> nat list" where
  "sort_queue h q = foldr (insort_task h) q []"

text \<open>
  \<open>pump\<close>: while a slot is free and the queue is not empty, sort the queue, take its head,
  skip it if it is canceled or no longer the task mapped for its pane, otherwise count it
  in flight and invoke its \<open>run\<close> callback. The callback starts asynchronous work: it is
  taken to return without throwing and without calling back into the module, and its
  completion callback is called later, as an event of its own.
\<close>

function pump :: "scheduler \<Rightarrow> scheduler" where
  "pump s =
     (if inFlight s < MAX_CONCURRENT_ATTACHES \<and> queue s \<noteq> [] then
        (case sort_queue (tasks s) (queue s) of
           [] \<Rightarrow> s
         | task # q \<Rightarrow>
             (let s1 = s\<lparr>queue := q\<rparr> in
              if canceled (tasks s1 task) then pump s1
              else if pendingByPaneId s1 (paneId (tasks s1 task)) \<noteq> Some task then pump s1
              else pump (s1\<lparr>inFlight := inFlight s1 + 1,
                             started := started s1 @ [task],
                             running := running s1 @ [task]\<rparr>)))
      else s)"
  by pat_completeness auto
termination
proof (relation "measure (\<lambda>s. length (queue s))")
  have ins: "length (insort_task h t us) = Suc (length us)" for h t us
    by (induction us) auto
  have srt: "length (sort_queue h q) = length q" for h q
    by (induction q) (auto simp: sort_queue_def ins)
  {
    fix s :: scheduler and task q s1
    assume "sort_queue (tasks s) (queue s) = task # q" and s1: "s1 = s\<lparr>queue := q\<rparr>"
    then have "length (queue s) = Suc (length q)"
      using srt [of "tasks s" "queue s"] by simp
    with s1 have "length (queue s1) < length (queue s)"
      by simp
  }
  note shorter = this
  show "wf (measure (\<lambda>s. length (queue s)))" by simp
  show "(s1, s) \<in> measure (\<lambda>s. length (queue s))"
    if "sort_queue (tasks s) (queue s) = task # q" and "s1 = s\<lparr>queue := q\<rparr>"
    for s :: scheduler and task q s1
    using shorter [OF that] by simp
  then show "(s1, s) \<in> measure (\<lambda>s. length (queue s))"
    if "sort_queue (tasks s) (queue s) = task # q" and "s1 = s\<lparr>queue := q\<rparr>"
    for s :: scheduler and task q s1
    using that by blast
  show "(s1\<lparr>inFlight := inFlight s1 + 1, started := started s1 @ [task],
              running := running s1 @ [task]\<rparr>, s) \<in> measure (\<lambda>s. length (queue s))"
    if "sort_queue (tasks s) (queue s) = task # q" and "s1 = s\<lparr>queue := q\<rparr>"
    for s :: scheduler and task q s1
    using shorter [OF that] by simp
qed

declare pump.simps [simp del]

text \<open>
  The completion callback \<open>done\<close> that \<open>pump\<close> hands to the \<open>run\<close> callback of \<open>task\<close>.
\<close>

definition done_task :: "nat \<Rightarrow> scheduler \<Rightarrow> scheduler" where
  "done_task task s =
     (let p = paneId (tasks s task);
          s1 = (if pendingByPaneId s p = Some task
                then s\<lparr>pendingByPaneId := (pendingByPaneId s)(p := None)\<rparr> else s);
          s2 = s1\<lparr>inFlight := max 0 (inFlight s1 - 1), running := remove1 task (running s1)\<rparr>
      in pump s2)"

text \<open>
  \<open>scheduleTerminalAttach({paneId, priority, run})\<close>, with the value of \<open>Date.now()\<close> as a
  parameter. The result is the new task, which stands for the cancel function returned,
  and the new state.
\<close>

definition scheduleTerminalAttach :: "string \<Rightarrow> int \<Rightarrow> int \<Rightarrow> scheduler \<Rightarrow> nat \<times> scheduler" where
  "scheduleTerminalAttach p prio now s =
     (let s1 = (case pendingByPaneId s p of
                  None \<Rightarrow> s
                | Some existing \<Rightarrow>
                    s\<lparr>tasks := (tasks s)(existing := (tasks s existing)\<lparr>canceled := True\<rparr>),
                      pendingByPaneId := (pendingByPaneId s)(p := None)\<rparr>);
          task = nextRef s1;
          s2 = s1\<lparr>tasks := (tasks s1)(task := \<lparr>paneId = p, priority = prio,
                                                  enqueuedAt = now, canceled = False\<rparr>),
                  nextRef := Suc task,
                  pendingByPaneId := (pendingByPaneId s1)(p \<mapsto> task),
                  queue := queue s1 @ [task]\<rparr>
      in (task, pump s2))"

text \<open>The cancel function returned for \<open>task\<close>.\<close>

definition cancel_task :: "nat \<Rightarrow> scheduler \<Rightarrow> scheduler" where
  "cancel_task task s =
     (let s1 = s\<lparr>tasks := (tasks s)(task := (tasks s task)\<lparr>canceled := True\<rparr>)\<rparr>;
          p = paneId (tasks s1 task)
      in if pendingByPaneId s1 p = Some task
         then s1\<lparr>pendingByPaneId := (pendingByPaneId s1)(p := None)\<rparr> else s1)"

text \<open>
  What can happen to the module: a call of \<open>scheduleTerminalAttach\<close>, a call of a cancel
  function, a call of a completion callback. A cancel function exists once its task has
  been created, a completion callback once its task has been run; an event that names a
  closure that does not exist yet is ignored.
\<close>

datatype sched_event = Schedule string int int | Cancel nat | Done nat

fun sched_step :: "scheduler \<Rightarrow> sched_event \<Rightarrow> scheduler" where
  "sched_step s (Schedule p prio now) = snd (scheduleTerminalAttach p prio now s)"
| "sched_step s (Cancel task) = (if task < nextRef s then cancel_task task s else s)"
| "sched_step s (Done task) = (if task \<in> set (started s) then done_task task s else s)"

definition sched_run :: "sched_event list \<Rightarrow> scheduler" where
  "sched_run evs = foldl sched_step init_scheduler evs"

text \<open>
  A run in which completion callbacks are called for running tasks only, that is, no
  \<open>run\<close> callback calls its completion callback twice.
\<close>

fun completes_once :: "scheduler \<Rightarrow> sched_event list \<Rightarrow> bool" where
  "completes_once s [] = True"
| "completes_once s (Done task # evs) =
     (task \<in> set (running s) \<and> completes_once (sched_step s (Done task)) evs)"
| "completes_once s (e # evs) = completes_once (sched_step s e) evs"

section \<open>Session lifecycle (\<open>SessionLifecycle\<close>)\<close>

datatype SessionState = Disconnected | Connecting | Connected | Reconnecting | Failed | Closed

datatype TmuxError = NO_SERVER | NO_SESSION | SOCKET_MISSING | TMUX_NOT_FOUND | ATTACH_FAILED

definition MAX_RETRIES :: nat where
  "MAX_RETRIES = 3"

definition RETRY_DELAYS_MS :: "int list" where
  "RETRY_DELAYS_MS = [100, 500, 1000]"

text \<open>
  How an awaited call of the backend settles: with a value, or with a rejection, given by
  the kind that \<open>backend.classifyError\<close> assigns to the error.
\<close>

datatype 'a settled = Resolved 'a | Rejected TmuxError

text \<open>
  An asynchronous method is suspended at each \<open>await\<close>. A suspended call is recorded with
  the local variables it needs when it resumes: \<open>doAttach\<close> waiting for \<open>sessionExists\<close> or
  for \<open>attachSession\<close> (the flag tells whether it was started by \<open>ensureAttached\<close>, whose
  \<open>finally\<close> block clears \<open>attachPromise\<close>), and the \<open>onExit\<close> handler waiting for
  \<open>sessionExists\<close> or for its retry delay.
\<close>

datatype suspended_call =
    AttachAwaitsExists int int bool
  | AttachAwaitsPty int int bool
  | ExitAwaitsExists int int
  | ExitAwaitsTimer int int

datatype pty_call = PtyKill nat | PtyWrite nat jsstring | PtyResize nat int int

text \<open>
  The fields of the class, then what the object does to the outside: the suspended calls,
  the calls of \<open>events.onStateChange\<close> and \<open>events.onError\<close> (the message text is left
  out), the calls made on PTY handles, the handles whose \<open>onData\<close> and \<open>onExit\<close> handlers
  are installed (with the \<open>cols\<close> and \<open>rows\<close> the handler closes over), and the delays
  passed to \<open>setTimeout\<close>. A PTY handle is a number.
\<close>

record SessionLifecycle =
  state :: SessionState
  ptyProcess :: "nat option"
  attachPromise :: bool
  retryCount :: nat
  lastDimensions :: "int \<times> int"
  disposed :: bool
  suspended :: "suspended_call list"
  stateChanges :: "(SessionState \<times> SessionState) list"
  errors :: "TmuxError list"
  ptyCalls :: "pty_call list"
  wired :: "(nat \<times> int \<times> int) list"
  timers :: "int list"

definition new_SessionLifecycle :: SessionLifecycle where
  "new_SessionLifecycle =
     \<lparr>state = Disconnected, ptyProcess = None, attachPromise = False, retryCount = 0,
      lastDimensions = (80, 24), disposed = False, suspended = [], stateChanges = [],
      errors = [], ptyCalls = [], wired = [], timers = []\<rparr>"

definition transition :: "SessionState \<Rightarrow> SessionLifecycle \<Rightarrow> SessionLifecycle" where
  "transition newState l =
     (if state l = newState then l
      else l\<lparr>state := newState, stateChanges := stateChanges l @ [(newState, state l)]\<rparr>)"

definition wireHandlers :: "int \<Rightarrow> int \<Rightarrow> SessionLifecycle \<Rightarrow> SessionLifecycle" where
  "wireHandlers cols rows l =
     (case ptyProcess l of
        None \<Rightarrow> l
      | Some p \<Rightarrow> l\<lparr>wired := wired l @ [(p, cols, rows)]\<rparr>)"

subsection \<open>\<open>doAttach\<close>, one definition for each stretch between two awaits\<close>

definition attach_finished :: "bool \<Rightarrow> SessionLifecycle \<Rightarrow> SessionLifecycle" where
  "attach_finished viaEnsure l = (if viaEnsure then l\<lparr>attachPromise := False\<rparr> else l)"

definition doAttach_begin :: "int \<Rightarrow> int \<Rightarrow> bool \<Rightarrow> SessionLifecycle \<Rightarrow> SessionLifecycle" where
  "doAttach_begin cols rows viaEnsure l =
     (let l1 = transition Connecting l
      in l1\<lparr>suspended := suspended l1 @ [AttachAwaitsExists cols rows viaEnsure]\<rparr>)"

definition doAttach_catch :: "TmuxError \<Rightarrow> bool \<Rightarrow> SessionLifecycle \<Rightarrow> SessionLifecycle" where
  "doAttach_catch tmuxError viaEnsure l =
     attach_finished viaEnsure (transition Failed (l\<lparr>errors := errors l @ [tmuxError]\<rparr>))"

definition doAttach_exists ::
  "bool settled \<Rightarrow> int \<Rightarrow> int \<Rightarrow> bool \<Rightarrow> SessionLifecycle \<Rightarrow> SessionLifecycle" where
  "doAttach_exists r cols rows viaEnsure l =
     (case r of
        Rejected e \<Rightarrow> doAttach_catch e viaEnsure l
      | Resolved sessionExists \<Rightarrow>
          if \<not> sessionExists then attach_finished viaEnsure (transition Closed l)
          else l\<lparr>suspended := suspended l @ [AttachAwaitsPty cols rows viaEnsure]\<rparr>)"

definition doAttach_attached ::
  "nat settled \<Rightarrow> int \<Rightarrow> int \<Rightarrow> bool \<Rightarrow> SessionLifecycle \<Rightarrow> SessionLifecycle" where
  "doAttach_attached r cols rows viaEnsure l =
     (case r of
        Rejected e \<Rightarrow> doAttach_catch e viaEnsure l
      | Resolved p \<Rightarrow>
          (let l1 = wireHandlers cols rows (l\<lparr>ptyProcess := Some p\<rparr>);
               l2 = l1\<lparr>ptyCalls := ptyCalls l1 @ [PtyResize p cols rows]\<rparr>;
               l3 = l2\<lparr>retryCount := 0\<rparr>
           in attach_finished viaEnsure (transition Connected l3)))"

subsection \<open>The \<open>onExit\<close> handler installed by \<open>wireHandlers\<close>\<close>

definition onExit_begin :: "int \<Rightarrow> int \<Rightarrow> SessionLifecycle \<Rightarrow> SessionLifecycle" where
  "onExit_begin cols rows l =
     (let l1 = l\<lparr>ptyProcess := None\<rparr>
      in if disposed l1 \<or> state l1 = Closed then l1
         else l1\<lparr>suspended := suspended l1 @ [ExitAwaitsExists cols rows]\<rparr>)"

definition retry_delay :: "nat \<Rightarrow> int" where
  "retry_delay i = (if i < length RETRY_DELAYS_MS then RETRY_DELAYS_MS ! i else 1000)"

definition onExit_exists :: "bool settled \<Rightarrow> int \<Rightarrow> int \<Rightarrow> SessionLifecycle \<Rightarrow> SessionLifecycle" where
  "onExit_exists r cols rows l =
     (let sessionExists = (case r of Resolved b \<Rightarrow> b | Rejected e \<Rightarrow> False)
      in if \<not> sessionExists then transition Closed l
         else if retryCount l < MAX_RETRIES then
           (let l1 = l\<lparr>retryCount := retryCount l + 1\<rparr>;
                l2 = transition Reconnecting l1;
                delay = retry_delay (retryCount l2 - 1)
            in l2\<lparr>timers := timers l2 @ [delay],
                  suspended := suspended l2 @ [ExitAwaitsTimer cols rows]\<rparr>)
         else transition Failed (l\<lparr>errors := errors l @ [ATTACH_FAILED]\<rparr>))"

definition onExit_timer :: "int \<Rightarrow> int \<Rightarrow> SessionLifecycle \<Rightarrow> SessionLifecycle" where
  "onExit_timer cols rows l =
     (if \<not> disposed l then doAttach_begin cols rows False l else l)"

subsection \<open>The public methods\<close>

text \<open>
  \<open>ensureAttached\<close> up to its first \<open>await\<close>. A call that finds \<open>attachPromise\<close> set only waits
  for it; a call that finds the session connected resizes and returns.
\<close>

definition ensureAttached :: "int \<Rightarrow> int \<Rightarrow> SessionLifecycle \<Rightarrow> SessionLifecycle" where
  "ensureAttached cols rows l =
     (if disposed l then l
      else let l1 = l\<lparr>lastDimensions := (cols, rows)\<rparr>
           in if attachPromise l1 then l1
              else case ptyProcess l1 of
                     Some p \<Rightarrow>
                       if state l1 = Connected
                       then l1\<lparr>ptyCalls := ptyCalls l1 @ [PtyResize p cols rows]\<rparr>
                       else doAttach_begin cols rows True (l1\<lparr>attachPromise := True\<rparr>)
                   | None \<Rightarrow> doAttach_begin cols rows True (l1\<lparr>attachPromise := True\<rparr>))"

datatype lifecycle_error = CannotWrite SessionState

definition lifecycle_write :: "jsstring \<Rightarrow> SessionLifecycle \<Rightarrow> lifecycle_error + SessionLifecycle" where
  "lifecycle_write data l =
     (case ptyProcess l of
        None \<Rightarrow> Inl (CannotWrite (state l))
      | Some p \<Rightarrow>
          if state l \<noteq> Connected then Inl (CannotWrite (state l))
          else Inr (l\<lparr>ptyCalls := ptyCalls l @ [PtyWrite p data]\<rparr>))"

definition lifecycle_resize :: "int \<Rightarrow> int \<Rightarrow> SessionLifecycle \<Rightarrow> SessionLifecycle" where
  "lifecycle_resize cols rows l =
     (let l1 = l\<lparr>lastDimensions := (cols, rows)\<rparr>
      in case ptyProcess l1 of
           None \<Rightarrow> l1
         | Some p \<Rightarrow>
             if state l1 = Connected
             then l1\<lparr>ptyCalls := ptyCalls l1 @ [PtyResize p cols rows]\<rparr> else l1)"

definition lifecycle_detach :: "SessionLifecycle \<Rightarrow> SessionLifecycle" where
  "lifecycle_detach l =
     (if disposed l then l
      else let l1 = (case ptyProcess l of
                       None \<Rightarrow> l
                     | Some p \<Rightarrow> l\<lparr>ptyCalls := ptyCalls l @ [PtyKill p], ptyProcess := None\<rparr>)
           in transition Disconnected l1)"

definition lifecycle_close :: "SessionLifecycle \<Rightarrow> SessionLifecycle" where
  "lifecycle_close l =
     (let l1 = transition Closed (l\<lparr>disposed := True\<rparr>)
      in case ptyProcess l1 of
           None \<Rightarrow> l1
         | Some p \<Rightarrow> l1\<lparr>ptyCalls := ptyCalls l1 @ [PtyKill p], ptyProcess := None\<rparr>)"

definition lifecycle_retry :: "SessionLifecycle \<Rightarrow> SessionLifecycle" where
  "lifecycle_retry l =
     (if disposed l then l
      else if state l \<noteq> Failed then l
      else ensureAttached (fst (lastDimensions l)) (snd (lastDimensions l))
             (l\<lparr>retryCount := 0\<rparr>))"

subsection \<open>The object as a transition system\<close>

text \<open>
  What can happen to a lifecycle object: a call of a public method; the exit of the
  process behind a PTY handle whose handlers are installed; and the settling of what a
  suspended call waits for, which resumes that call. \<open>Settles i r\<close> resumes the \<open>i\<close>-th
  suspended call with \<open>r\<close>; it does nothing if there is no such call or if \<open>r\<close> is not the
  kind of result the call waits for.
\<close>

datatype awaited = ExistsIs "bool settled" | AttachIs "nat settled" | TimerFired

datatype lifecycle_event =
    CallEnsureAttached int int
  | CallDetach
  | CallClose
  | CallRetry
  | CallWrite jsstring
  | CallResize int int
  | PtyExits nat
  | Settles nat awaited

fun resume :: "suspended_call \<Rightarrow> awaited \<Rightarrow> SessionLifecycle \<Rightarrow> SessionLifecycle option" where
  "resume (AttachAwaitsExists c r v) (ExistsIs b) l = Some (doAttach_exists b c r v l)"
| "resume (AttachAwaitsPty c r v) (AttachIs p) l = Some (doAttach_attached p c r v l)"
| "resume (ExitAwaitsExists c r) (ExistsIs b) l = Some (onExit_exists b c r l)"
| "resume (ExitAwaitsTimer c r) TimerFired l = Some (onExit_timer c r l)"
| "resume k a l = None"

fun find_wired :: "nat \<Rightarrow> (nat \<times> int \<times> int) list \<Rightarrow> (int \<times> int) option" where
  "find_wired p [] = None"
| "find_wired p ((q, c, r) # ws) = (if q = p then Some (c, r) else find_wired p ws)"

fun lifecycle_step :: "SessionLifecycle \<Rightarrow> lifecycle_event \<Rightarrow> SessionLifecycle" where
  "lifecycle_step l (CallEnsureAttached cols rows) = ensureAttached cols rows l"
| "lifecycle_step l CallDetach = lifecycle_detach l"
| "lifecycle_step l CallClose = lifecycle_close l"
| "lifecycle_step l CallRetry = lifecycle_retry l"
| "lifecycle_step l (CallWrite data) =
     (case lifecycle_write data l of Inl e \<Rightarrow> l | Inr l' \<Rightarrow> l')"
| "lifecycle_step l (CallResize cols rows) = lifecycle_resize cols rows l"
| "lifecycle_step l (PtyExits p) =
     (case find_wired p (wired l) of
        None \<Rightarrow> l
      | Some (c, r) \<Rightarrow>
          onExit_begin c r (l\<lparr>wired := filter (\<lambda>w. fst w \<noteq> p) (wired l)\<rparr>))"
| "lifecycle_step l (Settles i a) =
     (if i < length (suspended l) then
        (case resume (suspended l ! i) a
                (l\<lparr>suspended := take i (suspended l) @ drop (Suc i) (suspended l)\<rparr>) of
           None \<Rightarrow> l
         | Some l' \<Rightarrow> l')
      else l)"

definition lifecycle_run :: "SessionLifecycle \<Rightarrow> lifecycle_event list \<Rightarrow> SessionLifecycle" where
  "lifecycle_run l evs = foldl lifecycle_step l evs"

text \<open>
  Modelled from the spec: \<open>SessionLifecycle.canWrite\<close>, which \<open>TerminalManager.write\<close> calls
  and the class under \<open>src/\<close> does not define. The spec describes it as the non-throwing
  guard a caller checks before \<open>write\<close> to avoid its exception, and \<open>write\<close> as failing unless
  the state is \<open>connected\<close>; so it holds exactly when \<open>write\<close> would not throw.
\<close>

definition canWrite :: "SessionLifecycle \<Rightarrow> bool" where
  "canWrite l \<longleftrightarrow> state l = Connected \<and> ptyProcess l \<noteq> None"

section \<open>Terminal manager (\<open>TerminalManager\<close>)\<close>

text \<open>
  A \<open>TerminalSession\<close> object. The optional fields of the source (\<open>isPersistentBackend\<close>,
  \<open>isExpectedDetach\<close>, \<open>deleteHistoryOnExit\<close>) are read for truthiness only, so an absent
  one is \<open>False\<close>; \<open>historyWriter\<close>, \<open>cleanupTimeout\<close> and the data batcher are represented
  by whether they are present, respectively disposed.
\<close>

record TerminalSession =
  pty :: nat
  paneId :: string
  workspaceId :: string
  cwd :: string
  cols :: int
  rows :: int
  lastActive :: int
  scrollback :: jsstring
  isAlive :: bool
  wasRecovered :: bool
  shell :: string
  startTime :: int
  usedFallback :: bool
  isPersistentBackend :: bool
  isExpectedDetach :: bool
  deleteHistoryOnExit :: bool
  historyWriter :: bool
  cleanupTimeout :: bool
  batcherDisposed :: bool

record CreateSessionParams =
  paneId :: string
  tabId :: string
  workspaceId :: string
  cwd :: "string option"
  cols :: "int option"
  rows :: "int option"
  initialCommands :: "string list"

record InternalCreateSessionParams = CreateSessionParams +
  existingScrollback :: "jsstring option"
  useFallbackShell :: bool

record SessionResult =
  isNew :: bool
  scrollback :: jsstring
  wasRecovered :: bool

text \<open>What the manager does to the outside, in the order in which it does it.\<close>

datatype effect =
    EmitExit string int "int option"
  | EmitError string
  | PtySpawn nat string
  | PtyKillWith nat string
  | OnPty pty_call
  | CloseHistory string "int option"
  | CloseHistoryForDetach string
  | CleanupHistory string
  | RemovePorts string

text \<open>
  The fields of the class. Session objects are shared with the closures that the manager
  installs (exit handlers, kill timers), so they live in a store \<open>heap\<close> indexed by
  reference and the registry \<open>sessions\<close> maps a pane to a reference. A pending promise is a
  number. \<open>creations\<close> lists the calls of \<open>doCreateOrAttachPersistent\<close> that were started,
  with their promise, parameters and the \<open>existing\<close> session passed; \<open>exitHandlers\<close> lists
  the sessions on whose PTY \<open>setupExitHandler\<close> has installed its handler, with the
  parameters the handler closes over.
\<close>

record manager =
  heap :: "nat \<Rightarrow> TerminalSession"
  nextSession :: nat
  sessions :: "string \<rightharpoonup> nat"
  pendingSessions :: "string \<rightharpoonup> nat"
  nextPromise :: nat
  lifecycles :: "string \<rightharpoonup> SessionLifecycle"
  osc7Buffers :: "string \<rightharpoonup> jsstring"
  creations :: "(nat \<times> CreateSessionParams \<times> nat option) list"
  exitHandlers :: "(nat \<times> InternalCreateSessionParams) list"
  effects :: "effect list"

definition update_session :: "nat \<Rightarrow> (TerminalSession \<Rightarrow> TerminalSession) \<Rightarrow> manager \<Rightarrow> manager" where
  "update_session ref f m = m\<lparr>heap := (heap m)(ref := f (heap m ref))\<rparr>"

definition emit :: "effect \<Rightarrow> manager \<Rightarrow> manager" where
  "emit e m = m\<lparr>effects := effects m @ [e]\<rparr>"

subsection \<open>The callbacks the manager gives to a lifecycle\<close>



subsection \<open>\<open>write\<close> (here \<open>manager_write\<close>) and \<open>resize\<close>\<close>

datatype manager_error =
    SessionNotFound string
  | LifecycleThrew lifecycle_error
  | CannotWriteTo string SessionState

definition manager_write :: "string \<Rightarrow> jsstring \<Rightarrow> int \<Rightarrow> manager \<Rightarrow> manager_error + manager" where
  "manager_write pane data now m =
     (case sessions m pane of
        None \<Rightarrow> Inl (SessionNotFound pane)
      | Some ref \<Rightarrow>
          if \<not> isAlive (heap m ref) then Inl (SessionNotFound pane)
          else
            (case lifecycles m pane of
               Some lifecycle \<Rightarrow>
                 if canWrite lifecycle then
                   (case lifecycle_write data lifecycle of
                      Inl e \<Rightarrow> Inl (LifecycleThrew e)
                    | Inr l' \<Rightarrow>
                        Inr (update_session ref (\<lambda>s. s\<lparr>lastActive := now\<rparr>)
                               (m\<lparr>lifecycles := (lifecycles m)(pane \<mapsto> l')\<rparr>)))
                 else if state lifecycle = Reconnecting \<or> state lifecycle = Connecting
                 then Inr m
                 else Inl (CannotWriteTo pane (state lifecycle))
             | None \<Rightarrow>
                 Inr (update_session ref (\<lambda>s. s\<lparr>lastActive := now\<rparr>)
                        (emit (OnPty (PtyWrite (pty (heap m ref)) data)) m))))"


subsection \<open>\<open>createOrAttach\<close>\<close>








subsection \<open>Creating a non-persistent session (\<open>createSession\<close>, \<open>doCreateSession\<close>)\<close>

text \<open>
  Constants and functions of \<open>./env\<close> and of the platform, which are not part of the code
  at hand, are parameters: the default shell, the fallback shell, the crash threshold and
  the home directory.
\<close>

record environment =
  defaultShell :: string
  FALLBACK_SHELL :: string
  SHELL_CRASH_THRESHOLD_MS :: int
  homedir :: string

text \<open>
  What the outside answers during one creation: the \<open>cwd\<close> of the saved metadata, the
  saved transcript and the \<open>cwd\<close> stored with it, whether the working directory is an
  accessible directory, and the PTY handle that \<open>pty.spawn\<close> returns (\<open>None\<close> if it throws).
\<close>

record creation_io =
  metadataCwd :: "string option"
  historyScrollback :: jsstring
  historyCwd :: "string option"
  cwdAccessible :: bool
  spawnResult :: "nat option"

definition MAX_SCROLLBACK_CHARS :: nat where
  "MAX_SCROLLBACK_CHARS = 500000"

definition recoverScrollback ::
  "creation_io \<Rightarrow> jsstring option \<Rightarrow> jsstring \<times> bool \<times> string option" where
  "recoverScrollback io existing =
     (case (case existing of None \<Rightarrow> None | Some e \<Rightarrow> if e = [] then None else Some e) of
        Some e \<Rightarrow> (sanitizeTerminalScrollback e, True, metadataCwd io)
      | None \<Rightarrow>
          if historyScrollback io \<noteq> [] then
            (sanitizeTerminalScrollback
               (if length (historyScrollback io) > MAX_SCROLLBACK_CHARS
                then drop (length (historyScrollback io) - MAX_SCROLLBACK_CHARS)
                       (historyScrollback io)
                else historyScrollback io),
             True, historyCwd io)
          else ([], False, metadataCwd io))"

definition or_default :: "int option \<Rightarrow> int \<Rightarrow> int" where
  "or_default v d = (case v of None \<Rightarrow> d | Some x \<Rightarrow> if x = 0 then d else x)"

text \<open>\<open>createSession\<close>: the session object, or \<open>None\<close> if spawning the PTY throws.\<close>

definition createSession ::
  "environment \<Rightarrow> creation_io \<Rightarrow> InternalCreateSessionParams \<Rightarrow> int \<Rightarrow> TerminalSession option" where
  "createSession env io params now =
     (let sh = (if useFallbackShell params then FALLBACK_SHELL env else defaultShell env);
          terminalCols = or_default (CreateSessionParams.cols params) 80;
          terminalRows = or_default (CreateSessionParams.rows params) 24;
          (recoveredScrollback, recovered, savedCwd) =
             recoverScrollback io (existingScrollback params);
          wanted = (case CreateSessionParams.cwd params of
                      Some d \<Rightarrow> d
                    | None \<Rightarrow> (case savedCwd of Some d \<Rightarrow> d | None \<Rightarrow> homedir env));
          workingDir = (if cwdAccessible io then wanted else homedir env)
      in case spawnResult io of
           None \<Rightarrow> None
         | Some spawnedPty \<Rightarrow>
             Some \<lparr>pty = spawnedPty,
                   TerminalSession.paneId = CreateSessionParams.paneId params,
                   TerminalSession.workspaceId = CreateSessionParams.workspaceId params,
                   TerminalSession.cwd = workingDir,
                   TerminalSession.cols = terminalCols,
                   TerminalSession.rows = terminalRows,
                   lastActive = now,
                   TerminalSession.scrollback = recoveredScrollback,
                   isAlive = True,
                   TerminalSession.wasRecovered = recovered,
                   shell = sh,
                   startTime = now,
                   usedFallback = useFallbackShell params,
                   isPersistentBackend = False,
                   isExpectedDetach = False,
                   deleteHistoryOnExit = False,
                   historyWriter = True,
                   cleanupTimeout = False,
                   batcherDisposed = False\<rparr>)"

text \<open>
  \<open>doCreateSession\<close>: create the session, install the data and exit handlers, register the
  session. The result is \<open>None\<close> if \<open>createSession\<close> throws.
\<close>

definition doCreateSession ::
  "environment \<Rightarrow> creation_io \<Rightarrow> InternalCreateSessionParams \<Rightarrow> int \<Rightarrow> manager
     \<Rightarrow> SessionResult option \<times> manager" where
  "doCreateSession env io params now m =
     (case createSession env io params now of
        None \<Rightarrow> (None, m)
      | Some session \<Rightarrow>
          (let ref = nextSession m;
               m1 = emit (PtySpawn (pty session) (shell session)) m;
               m2 = m1\<lparr>heap := (heap m1)(ref := session), nextSession := Suc ref,
                       exitHandlers := exitHandlers m1 @ [(ref, params)],
                       sessions := (sessions m1)(CreateSessionParams.paneId params \<mapsto> ref)\<rparr>
           in (Some \<lparr>isNew = True,
                     scrollback = TerminalSession.scrollback session,
                     wasRecovered = TerminalSession.wasRecovered session\<rparr>, m2)))"

subsection \<open>\<open>closeSessionHistory\<close> and the exit handler of \<open>setupExitHandler\<close>\<close>

definition closeSessionHistory :: "nat \<Rightarrow> int option \<Rightarrow> manager \<Rightarrow> manager" where
  "closeSessionHistory ref exitCode m =
     (let session = heap m ref; pane = TerminalSession.paneId session
      in if deleteHistoryOnExit session then
           (let m1 = (if historyWriter session
                      then update_session ref (\<lambda>s. s\<lparr>historyWriter := False\<rparr>)
                             (emit (CloseHistory pane None) m)
                      else m)
            in emit (CleanupHistory pane) m1)
         else if historyWriter session
         then update_session ref (\<lambda>s. s\<lparr>historyWriter := False\<rparr>)
                (emit (CloseHistory pane exitCode) m)
         else m)"

text \<open>
  The handler that \<open>setupExitHandler(session, params)\<close> installs, run to its end when the
  process exits with \<open>exitCode\<close> and \<open>signal\<close> at time \<open>now\<close>; \<open>io\<close> is what the outside answers
  if the handler creates the fallback session.
\<close>

definition onSessionExit ::
  "environment \<Rightarrow> creation_io \<Rightarrow> nat \<Rightarrow> InternalCreateSessionParams \<Rightarrow> int \<Rightarrow> int option
     \<Rightarrow> int \<Rightarrow> manager \<Rightarrow> manager" where
  "onSessionExit env io ref params exitCode signal now m =
     (let pane = CreateSessionParams.paneId params;
          m1 = update_session ref (\<lambda>s. s\<lparr>isAlive := False, batcherDisposed := True\<rparr>) m;
          m2 = m1\<lparr>osc7Buffers := (osc7Buffers m1)(pane := None)\<rparr>;
          session = heap m2 ref;
          surface = (\<lambda>m'. update_session ref (\<lambda>s. s\<lparr>cleanupTimeout := True\<rparr>)
                            (emit (EmitExit pane exitCode signal)
                               (emit (RemovePorts pane)
                                  (closeSessionHistory ref (Some exitCode) m'))))
      in if isPersistentBackend session \<and> isExpectedDetach session then m2
         else if isPersistentBackend session then
           emit (EmitExit pane exitCode signal)
             (emit (RemovePorts pane) (closeSessionHistory ref (Some exitCode) m2))
         else
           (let sessionDuration = now - startTime session;
                crashedQuickly = (sessionDuration < SHELL_CRASH_THRESHOLD_MS env \<and> exitCode \<noteq> 0)
            in if crashedQuickly \<and> \<not> usedFallback session then
                 (let m3 = closeSessionHistory ref (Some exitCode) m2;
                      m4 = m3\<lparr>sessions := (sessions m3)(pane := None)\<rparr>;
                      accumulated = TerminalSession.scrollback session
                  in case doCreateSession env io
                            (params\<lparr>existingScrollback :=
                                       (if accumulated = [] then None else Some accumulated),
                                     useFallbackShell := True\<rparr>) now m4 of
                       (Some result, m5) \<Rightarrow> m5
                     | (None, m5) \<Rightarrow> surface m5)
               else surface m2))"

text \<open>The shells spawned and the exit events emitted, read off a list of effects.\<close>

fun spawned_shells :: "effect list \<Rightarrow> string list" where
  "spawned_shells [] = []"
| "spawned_shells (PtySpawn p sh # es) = sh # spawned_shells es"
| "spawned_shells (e # es) = spawned_shells es"

fun exit_events :: "effect list \<Rightarrow> (string \<times> int \<times> int option) list" where
  "exit_events [] = []"
| "exit_events (EmitExit pane code sig # es) = (pane, code, sig) # exit_events es"
| "exit_events (e # es) = exit_events es"

subsection \<open>\<open>killSessionWithTimeout\<close> and \<open>killByWorkspaceId\<close>\<close>

text \<open>
  The closure of one call of \<open>killSessionWithTimeout(paneId, session)\<close>: its arguments, the
  flag \<open>resolved\<close>, the value passed to \<open>resolve\<close> once it has been called, whether the
  \<open>exit\<close> listener is registered and whether each timer is armed.
\<close>

record kill_call =
  killPane :: string
  killSession :: nat
  resolved :: bool
  resolvedWith :: "bool option"
  listening :: bool
  sigtermTimeout :: bool
  sigkillTimeout :: bool

definition cleanup :: "bool \<Rightarrow> kill_call \<Rightarrow> kill_call" where
  "cleanup success k =
     (if resolved k then k
      else k\<lparr>resolved := True, listening := False, sigtermTimeout := False,
             sigkillTimeout := False, resolvedWith := Some success\<rparr>)"

text \<open>
  The call itself, up to the point where it returns its promise. \<open>killThrows\<close> tells whether
  \<open>session.pty.kill()\<close> throws.
\<close>

definition killSessionWithTimeout :: "string \<Rightarrow> nat \<Rightarrow> bool \<Rightarrow> manager \<Rightarrow> kill_call \<times> manager" where
  "killSessionWithTimeout pane ref killThrows m =
     (let k0 = \<lparr>killPane = pane, killSession = ref, resolved = False, resolvedWith = None,
                listening = False, sigtermTimeout = False, sigkillTimeout = False\<rparr>;
          m1 = update_session ref (\<lambda>s. s\<lparr>deleteHistoryOnExit := True\<rparr>) m
      in if \<not> isAlive (heap m ref) then
           (let m2 = closeSessionHistory ref None m1
            in (k0\<lparr>resolved := True, resolvedWith := Some True\<rparr>,
                m2\<lparr>sessions := (sessions m2)(pane := None)\<rparr>))
         else
           (let k1 = k0\<lparr>listening := True, sigtermTimeout := True\<rparr>
            in if killThrows then
                 (let m2 = update_session ref (\<lambda>s. s\<lparr>isAlive := False\<rparr>) m1;
                      m3 = m2\<lparr>sessions := (sessions m2)(pane := None)\<rparr>
                  in (cleanup False k1, closeSessionHistory ref None m3))
               else (k1, emit (OnPty (PtyKill (pty (heap m1 ref)))) m1)))"

text \<open>The \<open>exit:paneId\<close> listener, and its delivery for the exit events among new effects.\<close>

definition exitHandler :: "kill_call \<Rightarrow> kill_call" where
  "exitHandler k = (if listening k then cleanup True k else k)"

definition deliver_exits :: "effect list \<Rightarrow> kill_call \<Rightarrow> kill_call" where
  "deliver_exits es k =
     (if \<exists>e \<in> set (exit_events es). fst e = killPane k then exitHandler k else k)"

text \<open>The two timer callbacks. Each runs only if its timer is armed.\<close>

definition sigterm_timer :: "bool \<Rightarrow> kill_call \<Rightarrow> manager \<Rightarrow> kill_call \<times> manager" where
  "sigterm_timer killThrows k m =
     (if \<not> sigtermTimeout k then (k, m)
      else let k1 = k\<lparr>sigtermTimeout := False\<rparr>
           in if resolved k1 \<or> \<not> isAlive (heap m (killSession k1)) then (k1, m)
              else (k1\<lparr>sigkillTimeout := True\<rparr>,
                    if killThrows then m
                    else emit (PtyKillWith (pty (heap m (killSession k1))) ''SIGKILL'') m))"

definition sigkill_timer :: "kill_call \<Rightarrow> manager \<Rightarrow> kill_call \<times> manager" where
  "sigkill_timer k m =
     (if \<not> sigkillTimeout k then (k, m)
      else let k1 = k\<lparr>sigkillTimeout := False\<rparr>
           in if resolved k1 then (k1, m)
              else if isAlive (heap m (killSession k1)) then
                (let m1 = update_session (killSession k1) (\<lambda>s. s\<lparr>isAlive := False\<rparr>) m;
                     m2 = m1\<lparr>sessions := (sessions m1)(killPane k1 := None)\<rparr>
                 in (cleanup False k1, closeSessionHistory (killSession k1) None m2))
              else (cleanup False k1, m))"

text \<open>
  \<open>killByWorkspaceId\<close> awaits all its calls of \<open>killSessionWithTimeout\<close> and then counts:
  its result once every call has resolved, \<open>None\<close> while one is pending.
\<close>

definition killByWorkspaceId_result :: "kill_call list \<Rightarrow> (nat \<times> nat) option" where
  "killByWorkspaceId_result ks =
     (if list_all (\<lambda>k. resolvedWith k \<noteq> None) ks
      then let killed = length (filter (\<lambda>k. resolvedWith k = Some True) ks)
           in Some (killed, length ks - killed)
      else None)"

subsection \<open>Auxiliary predicate for the matcher\<close>

text \<open>
  What every result of the matcher satisfies relative to the state it started from: it is
  further on in the same subject, and group 1, if it was set on the way, lies inside the
  part that was consumed.
\<close>

definition extends :: "mstate \<Rightarrow> mstate \<Rightarrow> bool" where
  "extends m m' \<longleftrightarrow>
     pos m \<le> pos m' \<and> pos m' - pos m \<le> length (rest m) \<and>
     rest m' = drop (pos m' - pos m) (rest m) \<and>
     (cap1 m' = cap1 m \<or> (\<exists>c. cap1 m' = Some c \<and> length c \<le> pos m' - pos m))"

text \<open>
  The part of the subject between two match states; a code unit that every match of a
  pattern contains; a pattern without the capture group.
\<close>

definition segment :: "mstate \<Rightarrow> mstate \<Rightarrow> jsstring" where
  "segment m m' = take (pos m' - pos m) (rest m)"

fun must_have :: "nat \<Rightarrow> rx \<Rightarrow> bool" where
  "must_have c (Chr x) = (x = c)"
| "must_have c (Seq a b) = (must_have c a \<or> must_have c b)"
| "must_have c (Alt a b) = (must_have c a \<and> must_have c b)"
| "must_have c (Rep lo hi a) = (0 < lo \<and> hi \<noteq> Some 0 \<and> must_have c a)"
| "must_have c (Grp a) = must_have c a"
| "must_have c r = False"

fun no_group :: "rx \<Rightarrow> bool" where
  "no_group (Seq a b) = (no_group a \<and> no_group b)"
| "no_group (Alt a b) = (no_group a \<and> no_group b)"
| "no_group (Rep lo hi a) = no_group a"
| "no_group (Look a) = no_group a"
| "no_group (Grp a) = False"
| "no_group r = True"

subsection \<open>Auxiliary predicates for the scheduler\<close>

text \<open>
  References are allocated in order, the queue holds each task at most once, and a task
  leaves the queue before it is started.
\<close>

definition sched_wf :: "scheduler \<Rightarrow> bool" where
  "sched_wf s \<longleftrightarrow>
     (\<forall>t \<in> set (queue s). t < nextRef s) \<and> (\<forall>t \<in> set (started s). t < nextRef s) \<and>
     (\<forall>p t. pendingByPaneId s p = Some t \<longrightarrow> t < nextRef s) \<and>
     distinct (queue s) \<and> set (queue s) \<inter> set (started s) = {}"

text \<open>
  A task that was created and not started, and that is canceled or is not the task mapped
  for its pane.
\<close>

definition superseded :: "scheduler \<Rightarrow> nat \<Rightarrow> bool" where
  "superseded s t \<longleftrightarrow>
     t < nextRef s \<and> t \<notin> set (started s) \<and>
     (canceled (tasks s t) \<or> pendingByPaneId s (AttachTask.paneId (tasks s t)) \<noteq> Some t)"

definition in_bound :: "scheduler \<Rightarrow> bool" where
  "in_bound s \<longleftrightarrow> 0 \<le> inFlight s \<and> inFlight s \<le> MAX_CONCURRENT_ATTACHES"

section \<open>Scenarios\<close>

text \<open>
  Ten tasks for ten panes, all enqueued at priority 0 at the same time: three run, seven
  wait; after two of the running ones complete, the next two are started.
\<close>

definition ten_tasks :: "sched_event list" where
  "ten_tasks =
     [Schedule ''p0'' 0 5, Schedule ''p1'' 0 5, Schedule ''p2'' 0 5, Schedule ''p3'' 0 5,
      Schedule ''p4'' 0 5, Schedule ''p5'' 0 5, Schedule ''p6'' 0 5, Schedule ''p7'' 0 5,
      Schedule ''p8'' 0 5, Schedule ''p9'' 0 5]"

text \<open>
  Three tasks occupy the slots, a fourth for pane \<open>p3\<close> waits, and \<open>p3\<close> is scheduled again:
  task 3 is canceled and replaced by task 4, and when the slots are freed only task 4 runs.
\<close>

definition four_tasks :: "sched_event list" where
  "four_tasks =
     [Schedule ''p0'' 0 5, Schedule ''p1'' 0 5, Schedule ''p2'' 0 5, Schedule ''p3'' 0 5]"


text \<open>
  A lifecycle is attached (PTY 1). Its process exits while the backend session exists; the
  reconnect attempt made after the first delay finds the session but \<open>attachSession\<close>
  rejects with \<open>ATTACH_FAILED\<close>.
\<close>

definition attach_ok :: "lifecycle_event list" where
  "attach_ok =
     [CallEnsureAttached 80 24, Settles 0 (ExistsIs (Resolved True)),
      Settles 0 (AttachIs (Resolved 1))]"

definition exit_then_reconnect :: "lifecycle_event list" where
  "exit_then_reconnect =
     [PtyExits 1, Settles 0 (ExistsIs (Resolved True)), Settles 0 TimerFired,
      Settles 0 (ExistsIs (Resolved True))]"

definition one_failed_reconnect :: "lifecycle_event list" where
  "one_failed_reconnect =
     attach_ok @ exit_then_reconnect @ [Settles 0 (AttachIs (Rejected ATTACH_FAILED))]"

text \<open>
  \<open>close()\<close> is called while the \<open>doAttach\<close> started by \<open>ensureAttached\<close> waits for
  \<open>sessionExists\<close>; then the backend answers that the session exists and attaches PTY 7.
\<close>

definition close_during_attach :: "lifecycle_event list" where
  "close_during_attach =
     [CallEnsureAttached 80 24, CallClose, Settles 0 (ExistsIs (Resolved True)),
      Settles 0 (AttachIs (Resolved 7))]"

text \<open>
  A manager with one alive persistent session for pane \<open>p1\<close> (PTY 1, scrollback \<open>hi\<close>),
  with the lifecycle given.
\<close>

definition blank_session :: TerminalSession where
  "blank_session =
     \<lparr>pty = 0, TerminalSession.paneId = [], TerminalSession.workspaceId = [],
      TerminalSession.cwd = [], TerminalSession.cols = 80, TerminalSession.rows = 24,
      lastActive = 0, TerminalSession.scrollback = [], isAlive = False,
      TerminalSession.wasRecovered = False, shell = [], startTime = 0, usedFallback = False,
      isPersistentBackend = False, isExpectedDetach = False, deleteHistoryOnExit = False,
      historyWriter = False, cleanupTimeout = False, batcherDisposed = False\<rparr>"

definition init_manager :: manager where
  "init_manager =
     \<lparr>heap = (\<lambda>_. blank_session), nextSession = 0, sessions = Map.empty,
      pendingSessions = Map.empty, nextPromise = 0, lifecycles = Map.empty,
      osc7Buffers = Map.empty, creations = [], exitHandlers = [], effects = []\<rparr>"

definition session_p1 :: TerminalSession where
  "session_p1 =
     blank_session\<lparr>pty := 1, TerminalSession.paneId := ''p1'',
       TerminalSession.workspaceId := ''w1'', TerminalSession.scrollback := [104, 105],
       isAlive := True, TerminalSession.wasRecovered := True, shell := ''/bin/zsh'',
       isPersistentBackend := True, historyWriter := True\<rparr>"

definition manager_with :: "SessionLifecycle \<Rightarrow> manager" where
  "manager_with l =
     init_manager\<lparr>heap := (heap init_manager)(0 := session_p1), nextSession := 1,
       sessions := [''p1'' \<mapsto> 0], lifecycles := [''p1'' \<mapsto> l]\<rparr>"


text \<open>
  The session of pane \<open>p1\<close> is alive and its lifecycle is in state \<open>failed\<close>.
  \<open>createOrAttach\<close> is called for \<open>p1\<close>; the backend then answers that the session exists
  and attaches PTY 7, and the call resumes.
\<close>

definition failed_manager :: manager where
  "failed_manager = manager_with (lifecycle_run new_SessionLifecycle one_failed_reconnect)"


text \<open>
  A non-persistent session for pane \<open>p1\<close>, created at time 0 with the default shell (PTY 1).
  The crash threshold is one second.
\<close>

definition env0 :: environment where
  "env0 = \<lparr>defaultShell = ''/bin/zsh'', FALLBACK_SHELL = ''/bin/sh'',
            SHELL_CRASH_THRESHOLD_MS = 1000, homedir = ''/home/u''\<rparr>"

definition io_spawning :: "nat option \<Rightarrow> creation_io" where
  "io_spawning p =
     \<lparr>metadataCwd = None, historyScrollback = [], historyCwd = None, cwdAccessible = True,
      spawnResult = p\<rparr>"

definition internal_p1 :: InternalCreateSessionParams where
  "internal_p1 =
     \<lparr>CreateSessionParams.paneId = ''p1'', tabId = ''t1'',
      CreateSessionParams.workspaceId = ''w1'', CreateSessionParams.cwd = None,
      CreateSessionParams.cols = None, CreateSessionParams.rows = None,
      initialCommands = [], existingScrollback = None, useFallbackShell = False\<rparr>"

definition spawned_manager :: manager where
  "spawned_manager =
     snd (doCreateSession env0 (io_spawning (Some 1)) internal_p1 0 init_manager)"

text \<open>
  The session has produced the output \<open>hi\<close>. Its shell exits with code 1 after 500 ms, and
  the fallback shell is spawned as PTY 2.
\<close>

definition crashed_manager :: manager where
  "crashed_manager =
     onSessionExit env0 (io_spawning (Some 2)) 0 internal_p1 1 None 500
       (update_session 0 (\<lambda>s. s\<lparr>TerminalSession.scrollback := [104, 105]\<rparr>) spawned_manager)"

text \<open>
  \<open>killSessionWithTimeout\<close> is called for the session right after it was spawned. The shell
  reacts to SIGTERM by exiting with code 1 at 500 ms; then the 2 s timer fires.
\<close>

definition kill_started :: "kill_call \<times> manager" where
  "kill_started = killSessionWithTimeout ''p1'' 0 False spawned_manager"

definition kill_after_exit :: "kill_call \<times> manager" where
  "kill_after_exit =
     (let m = onSessionExit env0 (io_spawning (Some 2)) 0 internal_p1 1 None 500 (snd kill_started)
      in (deliver_exits (drop (length (effects (snd kill_started))) (effects m)) (fst kill_started),
          m))"

definition kill_after_timer :: "kill_call \<times> manager" where
  "kill_after_timer = sigterm_timer False (fst kill_after_exit) (snd kill_after_exit)"

text \<open>The fallback session in its turn exits with code 1, 100 ms after it was spawned.\<close>

definition crashed_again_manager :: manager where
  "crashed_again_manager =
     onSessionExit env0 (io_spawning (Some 3)) 1
       (internal_p1\<lparr>existingScrollback := Some [104, 105], useFallbackShell := True\<rparr>)
       1 None 600 crashed_manager"

section \<open>Properties of the scrollback sanitizer\<close>

lemma extends_refl: "extends m m"
  by (simp add: extends_def)

lemma extends_trans:
  assumes "extends a b" and "extends b c"
  shows "extends a c"
proof -
  from assms have p: "pos a \<le> pos b" "pos b \<le> pos c"
    and l: "pos b - pos a \<le> length (rest a)" "pos c - pos b \<le> length (rest b)"
    and r: "rest b = drop (pos b - pos a) (rest a)" "rest c = drop (pos c - pos b) (rest b)"
    by (simp_all add: extends_def)
  have e: "(pos c - pos b) + (pos b - pos a) = pos c - pos a"
    using p by arith
  have "rest c = drop (pos c - pos a) (rest a)"
    using r e by simp
  moreover have "pos c - pos a \<le> length (rest a)"
    using l r e by simp
  moreover have "cap1 c = cap1 a \<or> (\<exists>x. cap1 c = Some x \<and> length x \<le> pos c - pos a)"
    using assms p unfolding extends_def by (metis diff_le_mono diff_le_mono2 le_trans)
  ultimately show ?thesis
    using p by (simp add: extends_def)
qed

lemma advance_extends: "rest m \<noteq> [] \<Longrightarrow> extends m (advance m)"
  by (cases "rest m") (simp_all add: extends_def advance_def)

lemma rep_extends:
  "m' \<in> set (rep f lo hi m) \<Longrightarrow> \<forall>m m'. m' \<in> set (f m) \<longrightarrow> extends m m' \<Longrightarrow> extends m m'"
proof (induction f lo hi m arbitrary: m' rule: rep.induct)
  case (1 g lo hi m)
  note unfold = rep.simps [of g lo hi m]
  show ?case
  proof (cases "hi = Some 0")
    case True
    with "1.prems"(1) unfold have "m' = m" by simp
    then show ?thesis by (simp add: extends_refl)
  next
    case nz: False
    show ?thesis
    proof (cases "0 < lo")
      case True
      with nz "1.prems"(1) unfold obtain m1 where
        m1: "m1 \<in> set (g m)" and m': "m' \<in> set (rep g (lo - 1) (dec_max hi) m1)"
        by auto
      have "extends m1 m'"
        using "1.IH"(1) [OF nz True m1 m' "1.prems"(2)] .
      moreover have "extends m m1"
        using "1.prems"(2) m1 by blast
      ultimately show ?thesis
        by (rule extends_trans [rotated])
    next
      case False
      with nz "1.prems"(1) unfold have
        "m' = m \<or> (\<exists>m1 \<in> set (g m). length (rest m1) < length (rest m) \<and>
                     m' \<in> set (rep g 0 (dec_max hi) m1))"
        by (auto split: if_splits)
      then show ?thesis
      proof
        assume "m' = m"
        then show ?thesis by (simp add: extends_refl)
      next
        assume "\<exists>m1 \<in> set (g m). length (rest m1) < length (rest m) \<and>
                     m' \<in> set (rep g 0 (dec_max hi) m1)"
        then obtain m1 where m1: "m1 \<in> set (g m)"
          and lt: "length (rest m1) < length (rest m)"
          and m': "m' \<in> set (rep g 0 (dec_max hi) m1)"
          by blast
        have "extends m1 m'"
          using "1.IH"(2) [OF nz False m1 lt m' "1.prems"(2)] .
        moreover have "extends m m1"
          using "1.prems"(2) m1 by blast
        ultimately show ?thesis
          by (rule extends_trans [rotated])
      qed
    qed
  qed
qed

lemma rmatch_extends: "m' \<in> set (rmatch r m) \<Longrightarrow> extends m m'"
proof (induction r arbitrary: m m')
  case (Chr c)
  then have "rest m \<noteq> []" and "m' = advance m"
    by (auto split: list.splits if_splits)
  then show ?case
    by (simp add: advance_extends)
next
  case (Cls rs)
  then have "rest m \<noteq> []" and "m' = advance m"
    by (auto split: list.splits if_splits)
  then show ?case
    by (simp add: advance_extends)
next
  case (Seq a b)
  from Seq.prems obtain m1 where "m1 \<in> set (rmatch a m)" and "m' \<in> set (rmatch b m1)"
    by auto
  then have "extends m m1" and "extends m1 m'"
    by (simp_all add: Seq.IH)
  then show ?case
    by (rule extends_trans)
next
  case (Alt a b)
  then show ?case by auto
next
  case (Rep lo hi a)
  from Rep.prems have "m' \<in> set (rep (rmatch a) lo hi m)" by simp
  then show ?case
    by (rule rep_extends) (simp add: Rep.IH)
next
  case Bol
  then show ?case by (auto simp: extends_refl split: if_splits)
next
  case Eol
  then show ?case by (auto simp: extends_refl split: if_splits)
next
  case (Look a)
  then show ?case by (auto simp: extends_refl split: if_splits)
next
  case (Grp a)
  from Grp.prems obtain m1 where m1: "m1 \<in> set (rmatch a m)"
    and m': "m' = m1\<lparr>cap1 := Some (take (pos m1 - pos m) (rest m))\<rparr>"
    by auto
  from Grp.IH [OF m1] show ?case
    unfolding m' by (simp add: extends_def)
qed

lemma match_at_bounds:
  assumes "match_at r i s = Some m"
  shows "i \<le> pos m" and "pos m - i \<le> length s" and "length (expand t m) \<le> pos m - i"
proof -
  from assms have "m \<in> set (rmatch r \<lparr>pos = i, rest = s, cap1 = None\<rparr>)"
    by (auto simp: match_at_def split: list.splits)
  then have e: "extends \<lparr>pos = i, rest = s, cap1 = None\<rparr> m"
    by (rule rmatch_extends)
  then show "i \<le> pos m" and "pos m - i \<le> length s"
    by (simp_all add: extends_def)
  from e show "length (expand t m) \<le> pos m - i"
    by (cases t) (auto simp: extends_def)
qed

lemma replace_from_length: "length (replace_from r t i s) \<le> length s"
proof (induction r t i s rule: replace_from.induct)
  case (1 r t i s)
  note unfold = replace_from.simps [of r t i s]
  show ?case
  proof (cases "match_at r i s")
    case None
    with "1.IH"(1) unfold show ?thesis
      by (cases s) auto
  next
    case (Some m)
    have b: "i \<le> pos m" "pos m - i \<le> length s" "length (expand t m) \<le> pos m - i"
      using Some by (rule match_at_bounds)+
    show ?thesis
    proof (cases "pos m - i = 0 \<or> s = []")
      case True
      with b(3) b(2) have z: "expand t m = []" by auto
      with True Some "1.IH"(2) unfold show ?thesis
        by (cases s) auto
    next
      case False
      have "length (replace_from r t (pos m) (drop (pos m - i) s)) \<le> length s - (pos m - i)"
        using "1.IH"(3) [OF Some False] by simp
      with False Some b unfold show ?thesis
        by simp
    qed
  qed
qed

lemma replace_length: "length (replace s r t) \<le> length s"
  by (simp add: replace_def replace_from_length)

lemma foldl_replace_length:
  "length (foldl (\<lambda>s pattern. replace s pattern t) s ps) \<le> length s"
proof (induction ps arbitrary: s)
  case Nil
  show ?case by simp
next
  case (Cons p ps)
  have "length (foldl (\<lambda>s pattern. replace s pattern t) (replace s p t) ps)
          \<le> length (replace s p t)"
    by (rule Cons.IH)
  also have "\<dots> \<le> length s" by (rule replace_length)
  finally show ?case by simp
qed

lemmas sanitizer_patterns =
  PATTERNS_def DA_RESPONSE_RAW_def DA_RESPONSE_CARET_def CPR_RESPONSE_RAW_def
  CPR_RESPONSE_CARET_def MODE_REPORT_RAW_def MODE_REPORT_CARET_def MOUSE_SGR_RAW_def
  MOUSE_SGR_CARET_def MOUSE_SGR_PAYLOAD_RUN_def DA_PAYLOAD_def
  cls_qgt_def cls_num_def cls_Mm_def cls_space_def ESC_def

lemmas sanitizer_eval =
  sanitizeTerminalScrollback_def replace_def replace_from.simps match_at_def rep.simps
  advance_def dec_max_def

text \<open>
  Claim C10. The sanitizer never lengthens its input: for every string \<open>x\<close> the result has
  at most as many code units as \<open>x\<close>. Each of the nine patterns replaces a match by the
  empty string, and the last one by its group 1, which is part of the match.
\<close>

theorem sanitize_never_lengthens:
  "length (sanitizeTerminalScrollback x) \<le> length x"
proof -
  let ?mid = "foldl (\<lambda>s pattern. replace s pattern Nothing) x PATTERNS"
  have "length (replace ?mid DA_PAYLOAD Group1) \<le> length ?mid"
    by (rule replace_length)
  also have "\<dots> \<le> length x"
    by (rule foldl_replace_length)
  finally show ?thesis
    by (simp add: sanitizeTerminalScrollback_def Let_def)
qed

text \<open>
  The bound at the string \<open>"a 0;276;0c b"\<close>, whose leaked DA payload is removed while the
  blank in front of it is kept: 12 code units become 4.
\<close>

theorem sanitize_never_lengthens_witness:
  "sanitizeTerminalScrollback [97, 32, 48, 59, 50, 55, 54, 59, 48, 99, 32, 98] = [97, 32, 32, 98]
   \<and> length (sanitizeTerminalScrollback [97, 32, 48, 59, 50, 55, 54, 59, 48, 99, 32, 98])
       \<le> length [97, 32, 48, 59, 50, 55, 54, 59, 48, 99, 32, 98 :: nat]"
  using sanitize_never_lengthens [of "[97, 32, 48, 59, 50, 55, 54, 59, 48, 99, 32, 98]"]
  by (simp add: sanitizer_patterns sanitizer_eval)

text \<open>
  Claim C7, as stated, fails: the sanitizer is not idempotent. On \<open>ESC [ ESC [ c c\<close> the one
  pass of the first pattern removes the inner \<open>ESC [ c\<close>; what is left, \<open>ESC [ c\<close>, is itself
  a device-attributes response, which a second call removes.
\<close>

theorem sanitize_not_idempotent:
  "sanitizeTerminalScrollback (sanitizeTerminalScrollback [27, 91, 27, 91, 99, 99])
     \<noteq> sanitizeTerminalScrollback [27, 91, 27, 91, 99, 99]"
  by (simp add: sanitizer_patterns sanitizer_eval)

text \<open>
  Towards the amended claim: where no pattern matches, a replacement changes nothing; where
  one matches, it shortens the string, because every match of the first nine patterns is
  not empty and every match of the last is longer than its group 1; and a string in which
  a pattern matches contains one of the trigger texts of the fast path.
\<close>

lemma segment_append:
  assumes "extends a b" and "extends b c"
  shows "segment a c = segment a b @ segment b c"
proof -
  from assms have p: "pos a \<le> pos b" "pos b \<le> pos c"
    and r: "rest b = drop (pos b - pos a) (rest a)"
    by (simp_all add: extends_def)
  have e: "pos c - pos a = (pos b - pos a) + (pos c - pos b)"
    using p by arith
  show ?thesis
    unfolding segment_def r e by (simp add: take_add)
qed

lemma rep_must_have:
  assumes f: "\<forall>m m'. m' \<in> set (f m) \<longrightarrow> extends m m' \<and> c \<in> set (segment m m')"
    and m': "m' \<in> set (rep f lo hi m)" and lo: "0 < lo" and hi: "hi \<noteq> Some 0"
  shows "c \<in> set (segment m m')"
proof -
  from m' lo hi rep.simps [of f lo hi m] obtain m1 where
    m1: "m1 \<in> set (f m)" and r: "m' \<in> set (rep f (lo - 1) (dec_max hi) m1)"
    by auto
  from f m1 have e1: "extends m m1" and c: "c \<in> set (segment m m1)"
    by blast+
  from f have "\<forall>m m'. m' \<in> set (f m) \<longrightarrow> extends m m'" by blast
  with r have e2: "extends m1 m'" by (rule rep_extends)
  from c show ?thesis
    unfolding segment_append [OF e1 e2] by simp
qed

lemma rmatch_must_have:
  "m' \<in> set (rmatch r m) \<Longrightarrow> must_have c r \<Longrightarrow> c \<in> set (segment m m')"
proof (induction r arbitrary: m m')
  case (Chr x)
  then show ?case
    by (cases "rest m") (auto simp: segment_def advance_def split: if_splits)
next
  case (Seq a b)
  from Seq.prems(1) obtain m1 where m1: "m1 \<in> set (rmatch a m)" and m2: "m' \<in> set (rmatch b m1)"
    by auto
  note e = rmatch_extends [OF m1] rmatch_extends [OF m2]
  from Seq.prems(2) Seq.IH(1) [OF m1] Seq.IH(2) [OF m2] show ?case
    unfolding segment_append [OF e] by auto
next
  case (Alt a b)
  then show ?case by auto
next
  case (Rep lo hi a)
  from Rep.prems have r: "m' \<in> set (rep (rmatch a) lo hi m)" and lo: "0 < lo"
    and hi: "hi \<noteq> Some 0" and a: "must_have c a"
    by simp_all
  have "\<forall>m m'. m' \<in> set (rmatch a m) \<longrightarrow> extends m m' \<and> c \<in> set (segment m m')"
    using Rep.IH a rmatch_extends by blast
  then show ?case
    using r lo hi by (rule rep_must_have)
next
  case (Grp a)
  then obtain m1 where m1: "m1 \<in> set (rmatch a m)"
    and m': "m' = m1\<lparr>cap1 := Some (take (pos m1 - pos m) (rest m))\<rparr>"
    by auto
  from Grp.IH [OF m1] Grp.prems(2) show ?case
    unfolding m' by (simp add: segment_def)
qed simp_all

lemma rep_keeps_cap:
  "m' \<in> set (rep f lo hi m) \<Longrightarrow> \<forall>m m'. m' \<in> set (f m) \<longrightarrow> cap1 m' = cap1 m \<Longrightarrow> cap1 m' = cap1 m"
proof (induction f lo hi m arbitrary: m' rule: rep.induct)
  case (1 g lo hi m)
  note unfold = rep.simps [of g lo hi m]
  show ?case
  proof (cases "hi = Some 0")
    case True
    with "1.prems"(1) unfold show ?thesis by simp
  next
    case nz: False
    show ?thesis
    proof (cases "0 < lo")
      case True
      with nz "1.prems"(1) unfold obtain m1 where
        m1: "m1 \<in> set (g m)" and m': "m' \<in> set (rep g (lo - 1) (dec_max hi) m1)"
        by auto
      from "1.IH"(1) [OF nz True m1 m' "1.prems"(2)] "1.prems"(2) m1 show ?thesis
        by simp
    next
      case False
      with nz "1.prems"(1) unfold have
        "m' = m \<or> (\<exists>m1 \<in> set (g m). length (rest m1) < length (rest m) \<and>
                     m' \<in> set (rep g 0 (dec_max hi) m1))"
        by (auto split: if_splits)
      then show ?thesis
      proof
        assume "m' = m"
        then show ?thesis by simp
      next
        assume "\<exists>m1 \<in> set (g m). length (rest m1) < length (rest m) \<and>
                     m' \<in> set (rep g 0 (dec_max hi) m1)"
        then obtain m1 where m1: "m1 \<in> set (g m)"
          and lt: "length (rest m1) < length (rest m)"
          and m': "m' \<in> set (rep g 0 (dec_max hi) m1)"
          by blast
        from "1.IH"(2) [OF nz False m1 lt m' "1.prems"(2)] "1.prems"(2) m1 show ?thesis
          by simp
      qed
    qed
  qed
qed

lemma rmatch_keeps_cap:
  "m' \<in> set (rmatch r m) \<Longrightarrow> no_group r \<Longrightarrow> cap1 m' = cap1 m"
proof (induction r arbitrary: m m')
  case (Rep lo hi a)
  from Rep.prems have "m' \<in> set (rep (rmatch a) lo hi m)" and "no_group a"
    by simp_all
  then show ?case
    by (intro rep_keeps_cap [of m' "rmatch a" lo hi m]) (simp_all add: Rep.IH)
next
  case (Seq a b)
  from Seq.prems(1) obtain m1 where "m1 \<in> set (rmatch a m)" and "m' \<in> set (rmatch b m1)"
    by auto
  with Seq.IH Seq.prems(2) show ?case by fastforce
qed (auto simp: advance_def split: list.splits if_splits)


lemma match_at_segment:
  assumes "match_at r i s = Some m"
  shows "m \<in> set (rmatch r \<lparr>pos = i, rest = s, cap1 = None\<rparr>)"
    and "segment \<lparr>pos = i, rest = s, cap1 = None\<rparr> m = take (pos m - i) s"
  using assms by (auto simp: match_at_def segment_def split: list.splits)

lemma match_at_must_have:
  assumes "match_at r i s = Some m" and "must_have c r"
  shows "c \<in> set s" and "0 < pos m - i"
proof -
  have "c \<in> set (take (pos m - i) s)"
    using rmatch_must_have [OF match_at_segment(1) [OF assms(1)] assms(2)]
    unfolding match_at_segment(2) [OF assms(1)] .
  then show "c \<in> set s"
    by (rule in_set_takeD)
  show "0 < pos m - i"
  proof (rule ccontr)
    assume "\<not> 0 < pos m - i"
    with \<open>c \<in> set (take (pos m - i) s)\<close> show False by simp
  qed
qed

lemma match_at_prefix:
  assumes "match_at (Seq (Chr a) (Seq (Chr b) r)) i s = Some m"
  shows "starts_with s [a, b]"
proof (cases s)
  case Nil
  with assms show ?thesis by (simp add: match_at_def)
next
  case 1: (Cons x xs)
  show ?thesis
  proof (cases xs)
    case Nil
    with 1 assms show ?thesis
      by (simp add: match_at_def advance_def split: if_splits)
  next
    case (Cons y ys)
    with 1 assms show ?thesis
      by (simp add: match_at_def advance_def split: if_splits)
  qed
qed

lemma includes_js_single: "includes_js s [c] \<longleftrightarrow> c \<in> set s"
  by (induction s) auto

lemma occurs_from_includes:
  assumes "\<And>i s m. match_at r i s = Some m \<Longrightarrow> includes_js s p"
  shows "occurs_from r i s \<Longrightarrow> includes_js s p"
proof (induction s arbitrary: i)
  case Nil
  then show ?case using assms [of i "[]"] by auto
next
  case (Cons x xs)
  then show ?case using assms [of i "x # xs"] by auto
qed

lemma replace_from_fixed: "\<not> occurs_from r i s \<Longrightarrow> replace_from r t i s = s"
proof (induction s arbitrary: i)
  case Nil
  then show ?case by (simp add: replace_from.simps [of r t i "[]"])
next
  case (Cons x xs)
  then show ?case by (simp add: replace_from.simps [of r t i "x # xs"])
qed

lemma replace_from_shrinks:
  assumes sh: "\<And>i s m. match_at r i s = Some m \<Longrightarrow> length (expand t m) < pos m - i"
  shows "occurs_from r i s \<Longrightarrow> length (replace_from r t i s) < length s"
proof (induction s arbitrary: i)
  case Nil
  then obtain m where m: "match_at r i [] = Some m" by auto
  from sh [OF m] match_at_bounds(2) [OF m] show ?case by simp
next
  case (Cons x xs)
  note unfold = replace_from.simps [of r t i "x # xs"]
  show ?case
  proof (cases "match_at r i (x # xs)")
    case None
    with Cons.prems have "occurs_from r (Suc i) xs" by simp
    from Cons.IH [OF this] None unfold show ?thesis by simp
  next
    case (Some m)
    from sh [OF Some] have n: "length (expand t m) < pos m - i" .
    have le: "pos m - i \<le> length (x # xs)"
      using Some by (rule match_at_bounds(2))
    have "length (replace_from r t (pos m) (drop (pos m - i) (x # xs)))
            \<le> length (x # xs) - (pos m - i)"
      using replace_from_length [of r t "pos m" "drop (pos m - i) (x # xs)"] by simp
    moreover from n have "\<not> (pos m - i = 0 \<or> x # xs = [])" by simp
    ultimately show ?thesis
      using n le Some unfold by simp
  qed
qed

lemma patterns_shape:
  "pattern \<in> set PATTERNS \<Longrightarrow>
     must_have ESC pattern \<or> must_have 59 pattern \<or>
     (\<exists>r. pattern = Seq (Chr 94) (Seq (Chr 91) r))"
  by (auto simp: sanitizer_patterns)

lemma patterns_trigger:
  assumes "pattern \<in> set PATTERNS" and "match_at pattern i s = Some m"
  shows "includes_js s [ESC] \<or> includes_js s [94, 91] \<or> includes_js s [59]"
  and "length (expand Nothing m) < pos m - i"
proof -
  from patterns_shape [OF assms(1)] consider
    "must_have ESC pattern" | "must_have 59 pattern"
    | r where "pattern = Seq (Chr 94) (Seq (Chr 91) r)"
    by blast
  then have "(includes_js s [ESC] \<or> includes_js s [94, 91] \<or> includes_js s [59]) \<and>
    0 < pos m - i"
  proof cases
    case 1
    from match_at_must_have [OF assms(2) 1] show ?thesis
      by (simp add: includes_js_single)
  next
    case 2
    from match_at_must_have [OF assms(2) 2] show ?thesis
      by (simp add: includes_js_single)
  next
    case 3
    have "must_have 94 pattern" unfolding 3 by simp
    from match_at_must_have(2) [OF assms(2) this]
      match_at_prefix [OF assms(2) [unfolded 3]]
    show ?thesis by (cases s) auto
  qed
  then show "includes_js s [ESC] \<or> includes_js s [94, 91] \<or> includes_js s [59]"
    and "length (expand Nothing m) < pos m - i"
    by simp_all
qed

lemma DA_PAYLOAD_shape:
  "\<exists>g r. DA_PAYLOAD = Seq (Grp g) r \<and> no_group r \<and> must_have 59 r"
  by (simp add: sanitizer_patterns)

lemma DA_PAYLOAD_trigger:
  assumes "match_at DA_PAYLOAD i s = Some m"
  shows "includes_js s [59]" and "length (expand Group1 m) < pos m - i"
proof -
  obtain g r where d: "DA_PAYLOAD = Seq (Grp g) r" and ng: "no_group r" and mh: "must_have 59 r"
    using DA_PAYLOAD_shape by blast
  have "must_have 59 DA_PAYLOAD" unfolding d using mh by simp
  from match_at_must_have(1) [OF assms this] show "includes_js s [59]"
    by (simp add: includes_js_single)
  let ?m0 = "\<lparr>pos = i, rest = s, cap1 = None\<rparr>"
  from match_at_segment(1) [OF assms] obtain m1 where
    m1: "m1 \<in> set (rmatch (Grp g) ?m0)" and m: "m \<in> set (rmatch r m1)"
    unfolding d by auto
  from m1 obtain m2 where "m2 \<in> set (rmatch g ?m0)"
    and c1: "m1 = m2\<lparr>cap1 := Some (take (pos m2 - i) s)\<rparr>"
    by auto
  then have c: "cap1 m1 = Some (take (pos m1 - i) s)"
    by simp
  have e1: "extends ?m0 m1" using m1 by (rule rmatch_extends)
  have e2: "extends m1 m" using m by (rule rmatch_extends)
  have "59 \<in> set (segment m1 m)" using m mh by (rule rmatch_must_have)
  then have "0 < pos m - pos m1"
    by (cases "pos m - pos m1") (simp_all add: segment_def)
  moreover have "cap1 m = cap1 m1" using m ng by (rule rmatch_keeps_cap)
  moreover have "i \<le> pos m1" "pos m1 \<le> pos m"
    using e1 e2 by (simp_all add: extends_def)
  ultimately show "length (expand Group1 m) < pos m - i"
    using c by simp
qed

lemma foldl_replace_fixed:
  "\<forall>pattern \<in> set ps. \<not> occurs_from pattern 0 s \<Longrightarrow>
   foldl (\<lambda>s pattern. replace s pattern t) s ps = s"
  by (induction ps) (simp_all add: replace_def replace_from_fixed)

lemma foldl_replace_shrinks:
  assumes "\<And>pattern i s m. pattern \<in> set ps \<Longrightarrow> match_at pattern i s = Some m \<Longrightarrow>
             length (expand t m) < pos m - i"
  shows "\<exists>pattern \<in> set ps. occurs_from pattern 0 s \<Longrightarrow>
         length (foldl (\<lambda>s pattern. replace s pattern t) s ps) < length s"
  using assms
proof (induction ps arbitrary: s)
  case Nil
  then show ?case by simp
next
  case (Cons p ps)
  show ?case
  proof (cases "occurs_from p 0 s")
    case True
    have "length (replace s p t) < length s"
      unfolding replace_def
      by (rule replace_from_shrinks [OF _ True]) (rule Cons.prems(2) [of p], simp, assumption)
    moreover have "length (foldl (\<lambda>s pattern. replace s pattern t) (replace s p t) ps)
        \<le> length (replace s p t)"
      by (rule foldl_replace_length)
    ultimately show ?thesis by simp
  next
    case False
    then have e: "replace s p t = s"
      by (simp add: replace_def replace_from_fixed)
    from False Cons.prems(1) have ex: "\<exists>pattern \<in> set ps. occurs_from pattern 0 s"
      by auto
    have "length (foldl (\<lambda>s pattern. replace s pattern t) s ps) < length s"
    proof (rule Cons.IH [OF ex])
      fix pattern i s m
      assume "pattern \<in> set ps" and "match_at pattern i s = Some m"
      then show "length (expand t m) < pos m - i"
        using Cons.prems(2) [of pattern i s m] by simp
    qed
    with e show ?thesis by simp
  qed
qed

lemma artifact_free_fixed:
  assumes "artifact_free s"
  shows "sanitizeTerminalScrollback s = s"
proof -
  from assms have p: "\<forall>pattern \<in> set PATTERNS. \<not> occurs_from pattern 0 s"
    and d: "\<not> occurs_from DA_PAYLOAD 0 s"
    by (simp_all add: artifact_free_def list_all_iff)
  have "foldl (\<lambda>s pattern. replace s pattern Nothing) s PATTERNS = s"
    using p by (rule foldl_replace_fixed)
  moreover have "replace s DA_PAYLOAD Group1 = s"
    using d by (simp add: replace_def replace_from_fixed)
  ultimately show ?thesis
    by (simp add: sanitizeTerminalScrollback_def Let_def)
qed

lemma artifact_shrinks:
  assumes "\<not> artifact_free s"
  shows "length (sanitizeTerminalScrollback s) < length s"
proof -
  let ?mid = "foldl (\<lambda>s pattern. replace s pattern Nothing) s PATTERNS"
  from assms consider
    (p) "\<exists>pattern \<in> set PATTERNS. occurs_from pattern 0 s"
    | (d) "\<forall>pattern \<in> set PATTERNS. \<not> occurs_from pattern 0 s" "occurs_from DA_PAYLOAD 0 s"
    by (auto simp: artifact_free_def list_all_iff)
  then have "(includes_js s [ESC] \<or> includes_js s [94, 91] \<or> includes_js s [59]) \<and>
    length (replace ?mid DA_PAYLOAD Group1) < length s"
  proof cases
    case p
    then obtain pattern where pt: "pattern \<in> set PATTERNS" and oc: "occurs_from pattern 0 s"
      by blast
    have trig: "includes_js s [ESC] \<or> includes_js s [94, 91] \<or> includes_js s [59]"
    proof -
      from patterns_shape [OF pt] consider
        "must_have ESC pattern" | "must_have 59 pattern"
        | r where "pattern = Seq (Chr 94) (Seq (Chr 91) r)"
        by blast
      then show ?thesis
      proof cases
        case 1
        have "includes_js s [ESC]"
          by (rule occurs_from_includes [OF _ oc])
             (simp add: includes_js_single match_at_must_have(1) [OF _ 1])
        then show ?thesis by simp
      next
        case 2
        have "includes_js s [59]"
          by (rule occurs_from_includes [OF _ oc])
             (simp add: includes_js_single match_at_must_have(1) [OF _ 2])
        then show ?thesis by simp
      next
        case 3
        have "includes_js s [94, 91]"
        proof (rule occurs_from_includes [OF _ oc])
          fix i s m
          assume "match_at pattern i s = Some m"
          then have "starts_with s [94, 91]"
            unfolding 3 by (rule match_at_prefix)
          then show "includes_js s [94, 91]"
            by (cases s) auto
        qed
        then show ?thesis by simp
      qed
    qed
    have "length ?mid < length s"
      by (rule foldl_replace_shrinks [OF _ p]) (rule patterns_trigger(2))
    moreover have "length (replace ?mid DA_PAYLOAD Group1) \<le> length ?mid"
      by (rule replace_length)
    ultimately show ?thesis using trig by simp
  next
    case d
    have mid: "?mid = s" using d(1) by (rule foldl_replace_fixed)
    have "includes_js s [59]"
      by (rule occurs_from_includes [OF _ d(2)]) (rule DA_PAYLOAD_trigger(1))
    moreover have "length (replace s DA_PAYLOAD Group1) < length s"
      unfolding replace_def
      by (rule replace_from_shrinks [OF _ d(2)]) (rule DA_PAYLOAD_trigger(2))
    ultimately show ?thesis using mid by simp
  qed
  moreover from this have "s \<noteq> []" by auto
  ultimately show ?thesis
    by (auto simp: sanitizeTerminalScrollback_def Let_def)
qed

text \<open>
  Claim C7, amended. Each pattern is applied once, left to right, with no iteration to a
  fixed point. A second call changes nothing exactly if the first call left no artifact:
  \<open>sanitize(sanitize(x)) = sanitize(x)\<close> if and only if none of the ten patterns matches
  anywhere in \<open>sanitize(x)\<close>. In particular the sanitizer is idempotent on every input in
  which no pattern matches, which it returns unchanged.
\<close>

theorem sanitize_idempotent_iff_artifact_free:
  "(sanitizeTerminalScrollback (sanitizeTerminalScrollback x) = sanitizeTerminalScrollback x
      \<longleftrightarrow> artifact_free (sanitizeTerminalScrollback x)) \<and>
   (artifact_free x \<longrightarrow>
      sanitizeTerminalScrollback x = x \<and>
      sanitizeTerminalScrollback (sanitizeTerminalScrollback x) = sanitizeTerminalScrollback x)"
proof (intro conjI iffI impI)
  assume "artifact_free (sanitizeTerminalScrollback x)"
  then show "sanitizeTerminalScrollback (sanitizeTerminalScrollback x) = sanitizeTerminalScrollback x"
    by (rule artifact_free_fixed)
next
  assume e: "sanitizeTerminalScrollback (sanitizeTerminalScrollback x) = sanitizeTerminalScrollback x"
  show "artifact_free (sanitizeTerminalScrollback x)"
  proof (rule ccontr)
    assume "\<not> artifact_free (sanitizeTerminalScrollback x)"
    from artifact_shrinks [OF this] e show False by simp
  qed
next
  assume a: "artifact_free x"
  then show "sanitizeTerminalScrollback x = x"
    by (rule artifact_free_fixed)
  with a show "sanitizeTerminalScrollback (sanitizeTerminalScrollback x) = sanitizeTerminalScrollback x"
    by simp
qed

text \<open>
  The amended claim at \<open>ls; pwd\<close>, which contains \<open>;\<close> and no artifact, and at the red \<open>hi\<close>
  followed by a device-attributes response, of which the colour code is kept and the
  response removed.
\<close>

theorem sanitize_idempotent_iff_artifact_free_witness:
  "artifact_free [108, 115, 59, 32, 112, 119, 100] \<and>
   sanitizeTerminalScrollback [108, 115, 59, 32, 112, 119, 100] = [108, 115, 59, 32, 112, 119, 100] \<and>
   sanitizeTerminalScrollback
     [27, 91, 51, 49, 109, 104, 105, 27, 91, 62, 48, 59, 50, 55, 54, 59, 48, 99]
     = [27, 91, 51, 49, 109, 104, 105] \<and>
   artifact_free (sanitizeTerminalScrollback
     [27, 91, 51, 49, 109, 104, 105, 27, 91, 62, 48, 59, 50, 55, 54, 59, 48, 99]) \<and>
   sanitizeTerminalScrollback (sanitizeTerminalScrollback
     [27, 91, 51, 49, 109, 104, 105, 27, 91, 62, 48, 59, 50, 55, 54, 59, 48, 99])
     = sanitizeTerminalScrollback
         [27, 91, 51, 49, 109, 104, 105, 27, 91, 62, 48, 59, 50, 55, 54, 59, 48, 99]"
proof -
  let ?ls = "[108, 115, 59, 32, 112, 119, 100] :: jsstring"
  let ?red = "[27, 91, 51, 49, 109, 104, 105, 27, 91, 62, 48, 59, 50, 55, 54, 59, 48, 99] :: jsstring"
  have a: "artifact_free ?ls"
    by (simp add: artifact_free_def sanitizer_patterns match_at_def rep.simps advance_def
          dec_max_def)
  have v: "sanitizeTerminalScrollback ?red = [27, 91, 51, 49, 109, 104, 105]"
    by (simp add: sanitizer_patterns sanitizer_eval)
  have b: "artifact_free (sanitizeTerminalScrollback ?red)"
    unfolding v
    by (simp add: artifact_free_def sanitizer_patterns match_at_def rep.simps advance_def
          dec_max_def)
  have 1: "sanitizeTerminalScrollback ?ls = ?ls"
    using sanitize_idempotent_iff_artifact_free [of ?ls, THEN conjunct2, THEN mp, OF a]
    by (rule conjunct1)
  have 2: "sanitizeTerminalScrollback (sanitizeTerminalScrollback ?red)
      = sanitizeTerminalScrollback ?red"
    using sanitize_idempotent_iff_artifact_free [of ?red, THEN conjunct1, THEN iffD2, OF b] .
  from a 1 v b 2 show ?thesis
    by (intro conjI)
qed

section \<open>Properties of the attach scheduler\<close>

lemma set_insort_task: "set (insort_task h t us) = insert t (set us)"
  by (induction us) auto

lemma set_sort_queue: "set (sort_queue h q) = set q"
  by (induction q) (auto simp: sort_queue_def set_insort_task)

lemma distinct_insort_task: "distinct (insort_task h t us) \<longleftrightarrow> t \<notin> set us \<and> distinct us"
  by (induction us) (auto simp: set_insort_task)

lemma distinct_sort_queue: "distinct (sort_queue h q) \<longleftrightarrow> distinct q"
  by (induction q) (auto simp: sort_queue_def distinct_insort_task set_sort_queue [unfolded sort_queue_def])

text \<open>An invariant of the loop of pump: it holds after pump if it holds before and every iteration keeps it.\<close>

lemma pump_invariant:
  assumes "P s"
    and skip: "\<And>s task q. P s \<Longrightarrow> sort_queue (tasks s) (queue s) = task # q \<Longrightarrow> P (s\<lparr>queue := q\<rparr>)"
    and start: "\<And>s task q. P s \<Longrightarrow> inFlight s < MAX_CONCURRENT_ATTACHES \<Longrightarrow>
        sort_queue (tasks s) (queue s) = task # q \<Longrightarrow> \<not> canceled (tasks s task) \<Longrightarrow>
        pendingByPaneId s (AttachTask.paneId (tasks s task)) = Some task \<Longrightarrow>
        P (s\<lparr>queue := q, inFlight := inFlight s + 1, started := started s @ [task],
             running := running s @ [task]\<rparr>)"
  shows "P (pump s)"
  using assms(1)
proof (induction s rule: pump.induct)
  case (1 s)
  note unfold = pump.simps [of s]
  show ?case
  proof (cases "inFlight s < MAX_CONCURRENT_ATTACHES \<and> queue s \<noteq> []")
    case False
    with unfold "1.prems" show ?thesis by auto
  next
    case go: True
    show ?thesis
    proof (cases "sort_queue (tasks s) (queue s)")
      case Nil
      with go unfold "1.prems" show ?thesis by simp
    next
      case (Cons task q)
      let ?s1 = "s\<lparr>queue := q\<rparr>"
      have P1: "P ?s1" using skip [OF "1.prems" Cons] .
      show ?thesis
      proof (cases "canceled (tasks s task)")
        case True
        then have "pump s = pump ?s1"
          using go Cons by (subst unfold) simp
        moreover have "P (pump ?s1)"
          using "1.IH"(1) [OF go Cons refl _ P1] True by simp
        ultimately show ?thesis by simp
      next
        case nc: False
        show ?thesis
        proof (cases "pendingByPaneId s (AttachTask.paneId (tasks s task)) = Some task")
          case False
          then have "pump s = pump ?s1"
            using go Cons nc by (subst unfold) simp
          moreover have "P (pump ?s1)"
            using "1.IH"(2) [OF go Cons refl _ _ P1] nc False by simp
          ultimately show ?thesis by simp
        next
          case True
          let ?s2 = "?s1\<lparr>inFlight := inFlight ?s1 + 1, started := started ?s1 @ [task],
                         running := running ?s1 @ [task]\<rparr>"
          have e: "pump s = pump ?s2"
            using go Cons nc True by (subst unfold) simp
          have "P ?s2" using start [OF "1.prems" _ Cons nc True] go by simp
          then have "P (pump ?s2)"
            using "1.IH"(3) [OF go Cons refl _ _ ] nc True by simp
          with e show ?thesis by simp
        qed
      qed
    qed
  qed
qed

lemma pump_frame:
  "tasks (pump s) = tasks s \<and> pendingByPaneId (pump s) = pendingByPaneId s \<and> nextRef (pump s) = nextRef s"
  by (rule pump_invariant [where P = "\<lambda>s'. tasks s' = tasks s \<and> pendingByPaneId s' = pendingByPaneId s \<and> nextRef s' = nextRef s"]) simp_all

lemma pump_bound:
  assumes "0 \<le> inFlight s \<and> inFlight s \<le> MAX_CONCURRENT_ATTACHES"
  shows "0 \<le> inFlight (pump s) \<and> inFlight (pump s) \<le> MAX_CONCURRENT_ATTACHES"
  by (rule pump_invariant [where P = "\<lambda>s'. 0 \<le> inFlight s' \<and> inFlight s' \<le> MAX_CONCURRENT_ATTACHES"])
     (use assms in simp_all)

lemma pump_balanced:
  assumes "int (length (running s)) = inFlight s"
  shows "int (length (running (pump s))) = inFlight (pump s)"
  by (rule pump_invariant [where P = "\<lambda>s'. int (length (running s')) = inFlight s'"])
     (use assms in simp_all)

lemma step_bound: "in_bound s \<Longrightarrow> in_bound (sched_step s e)"
proof (cases e)
  case (Schedule p prio now)
  assume "in_bound s"
  then show ?thesis
    unfolding Schedule in_bound_def
    by (auto simp: scheduleTerminalAttach_def Let_def split: option.splits intro!: pump_bound)
next
  case (Cancel t)
  assume "in_bound s"
  then show ?thesis
    unfolding Cancel in_bound_def by (simp add: cancel_task_def Let_def)
next
  case (Done t)
  assume "in_bound s"
  then show ?thesis
    unfolding Done in_bound_def
    by (auto simp: done_task_def Let_def intro!: pump_bound)
qed

lemma foldl_step_bound: "in_bound s \<Longrightarrow> in_bound (foldl sched_step s evs)"
  by (induction evs arbitrary: s) (simp_all add: step_bound)

lemma step_balanced:
  assumes "int (length (running s)) = inFlight s"
    and "completes_once s (e # evs)"
  shows "int (length (running (sched_step s e))) = inFlight (sched_step s e)"
proof (cases e)
  case (Schedule p prio now)
  with assms(1) show ?thesis
    by (auto simp: scheduleTerminalAttach_def Let_def split: option.splits intro!: pump_balanced)
next
  case (Cancel t)
  with assms(1) show ?thesis
    by (simp add: cancel_task_def Let_def)
next
  case (Done t)
  with assms(2) have r: "t \<in> set (running s)" by simp
  then have "length (running s) > 0" by (cases "running s") auto
  with assms(1) r have
    "int (length (remove1 t (running s))) = max 0 (inFlight s - 1)"
    by (simp add: length_remove1)
  with assms(1) show ?thesis
    unfolding Done by (auto simp: done_task_def Let_def intro!: pump_balanced)
qed

lemma completes_once_tail: "completes_once s (e # evs) \<Longrightarrow> completes_once (sched_step s e) evs"
  by (cases e) simp_all

lemma foldl_step_balanced:
  "int (length (running s)) = inFlight s \<Longrightarrow> completes_once s evs \<Longrightarrow>
   int (length (running (foldl sched_step s evs))) = inFlight (foldl sched_step s evs)"
proof (induction evs arbitrary: s)
  case Nil
  then show ?case by simp
next
  case (Cons e evs)
  from Cons.prems have "int (length (running (sched_step s e))) = inFlight (sched_step s e)"
    by (rule step_balanced)
  moreover from Cons.prems(2) have "completes_once (sched_step s e) evs"
    by (rule completes_once_tail)
  ultimately show ?case
    using Cons.IH by simp
qed

lemma pump_wf: "sched_wf s \<Longrightarrow> sched_wf (pump s)"
proof (rule pump_invariant [where P = sched_wf])
  fix s :: scheduler and task q
  assume wf: "sched_wf s" and srt: "sort_queue (tasks s) (queue s) = task # q"
  have st: "set (queue s) = insert task (set q)"
    using set_sort_queue [of "tasks s" "queue s"] srt by simp
  have d: "task \<notin> set q \<and> distinct q"
    using distinct_sort_queue [of "tasks s" "queue s"] srt wf by (simp add: sched_wf_def)
  show "sched_wf (s\<lparr>queue := q\<rparr>)"
    using wf st d by (auto simp: sched_wf_def)
  show "sched_wf (s\<lparr>queue := q, inFlight := inFlight s + 1, started := started s @ [task],
                   running := running s @ [task]\<rparr>)"
    using wf st d by (auto simp: sched_wf_def)
qed

lemma pump_superseded: "superseded s t \<Longrightarrow> superseded (pump s) t"
  by (rule pump_invariant [where P = "\<lambda>s'. superseded s' t"]) (auto simp: superseded_def)

lemma schedule_wf: "sched_wf s \<Longrightarrow> sched_wf (snd (scheduleTerminalAttach p prio now s))"
  unfolding scheduleTerminalAttach_def Let_def snd_conv
  by (rule pump_wf) (auto simp: sched_wf_def less_Suc_eq split: option.splits)

lemma step_wf: "sched_wf s \<Longrightarrow> sched_wf (sched_step s e)"
proof (cases e)
  case (Schedule p prio now)
  assume "sched_wf s"
  then show ?thesis
    unfolding Schedule by (simp add: schedule_wf)
next
  case (Cancel t)
  assume "sched_wf s"
  then show ?thesis
    unfolding Cancel by (auto simp: cancel_task_def Let_def sched_wf_def split: if_splits)
next
  case (Done t)
  assume wf: "sched_wf s"
  have "sched_wf (done_task t s)"
    unfolding done_task_def Let_def
    by (rule pump_wf) (use wf in \<open>auto simp: sched_wf_def split: if_splits\<close>)
  with wf show ?thesis
    unfolding Done by simp
qed

lemma schedule_superseded:
  assumes "sched_wf s" and "t < nextRef s" and "t \<notin> set (started s)"
    and "canceled (tasks s t) \<or> pendingByPaneId s (AttachTask.paneId (tasks s t)) \<noteq> Some t
           \<or> AttachTask.paneId (tasks s t) = p"
  shows "superseded (snd (scheduleTerminalAttach p prio now s)) t"
  unfolding scheduleTerminalAttach_def Let_def snd_conv
  by (rule pump_superseded) (use assms in \<open>auto simp: superseded_def sched_wf_def split: option.splits\<close>)

lemma step_superseded:
  assumes "sched_wf s" and "superseded s t"
  shows "superseded (sched_step s e) t"
proof (cases e)
  case (Schedule p prio now)
  show ?thesis
    unfolding Schedule sched_step.simps
    by (rule schedule_superseded) (use assms in \<open>auto simp: superseded_def\<close>)
next
  case (Cancel u)
  with assms show ?thesis
    by (auto simp: cancel_task_def Let_def superseded_def)
next
  case (Done u)
  have "superseded (done_task u s) t"
    unfolding done_task_def Let_def
    by (rule pump_superseded) (use assms in \<open>auto simp: superseded_def\<close>)
  with assms show ?thesis
    unfolding Done by simp
qed

lemma foldl_step_wf: "sched_wf s \<Longrightarrow> sched_wf (foldl sched_step s evs)"
  by (induction evs arbitrary: s) (simp_all add: step_wf)

lemma foldl_step_superseded:
  "sched_wf s \<Longrightarrow> superseded s t \<Longrightarrow> superseded (foldl sched_step s evs) t"
  by (induction evs arbitrary: s) (simp_all add: step_wf step_superseded)

lemma sched_run_wf: "sched_wf (sched_run evs)"
  unfolding sched_run_def by (rule foldl_step_wf) (simp add: sched_wf_def init_scheduler_def)

lemma schedule_result:
  "fst (scheduleTerminalAttach p prio now s) = nextRef s"
  by (simp add: scheduleTerminalAttach_def Let_def split: option.splits)

lemma schedule_replaces:
  assumes "sched_wf s" and "pendingByPaneId s p = Some old"
  shows "canceled (tasks (snd (scheduleTerminalAttach p prio now s)) old)"
    and "pendingByPaneId (snd (scheduleTerminalAttach p prio now s)) p = Some (nextRef s)"
    and "old \<noteq> nextRef s"
proof -
  from assms show ne: "old \<noteq> nextRef s"
    by (auto simp: sched_wf_def)
  then show "canceled (tasks (snd (scheduleTerminalAttach p prio now s)) old)"
    using assms(2) by (simp add: scheduleTerminalAttach_def Let_def pump_frame)
  show "pendingByPaneId (snd (scheduleTerminalAttach p prio now s)) p = Some (nextRef s)"
    using assms(2) by (simp add: scheduleTerminalAttach_def Let_def pump_frame)
qed

lemmas sched_eval =
  sched_run_def init_scheduler_def scheduleTerminalAttach_def pump.simps sort_queue_def
  compare_tasks_def MAX_CONCURRENT_ATTACHES_def done_task_def cancel_task_def Let_def

text \<open>
  Claim C5. For every sequence of \<open>scheduleTerminalAttach\<close> calls, cancellations and
  completions, \<open>inFlight\<close> never exceeds the cap of 3; and as long as every completion
  callback is called for a task that is running (no task completes twice), \<open>inFlight\<close> is
  the number of tasks that are running, so at most 3 run at any instant.
\<close>

theorem inFlight_never_exceeds_cap:
  "inFlight (sched_run evs) \<le> MAX_CONCURRENT_ATTACHES \<and>
   (completes_once init_scheduler evs \<longrightarrow>
      int (length (running (sched_run evs))) = inFlight (sched_run evs) \<and>
      int (length (running (sched_run evs))) \<le> 3)"
proof -
  have b: "in_bound (sched_run evs)"
    unfolding sched_run_def
    by (rule foldl_step_bound) (simp add: in_bound_def init_scheduler_def MAX_CONCURRENT_ATTACHES_def)
  have "int (length (running (sched_run evs))) = inFlight (sched_run evs)"
    if "completes_once init_scheduler evs"
    unfolding sched_run_def
    by (rule foldl_step_balanced) (use that in \<open>simp_all add: init_scheduler_def\<close>)
  with b show ?thesis
    by (auto simp: in_bound_def MAX_CONCURRENT_ATTACHES_def)
qed

theorem inFlight_never_exceeds_cap_witness:
  "completes_once init_scheduler (ten_tasks @ [Done 1, Done 0]) \<and>
   running (sched_run ten_tasks) = [0, 1, 2] \<and>
   queue (sched_run ten_tasks) = [3, 4, 5, 6, 7, 8, 9] \<and>
   running (sched_run (ten_tasks @ [Done 1, Done 0])) = [2, 3, 4] \<and>
   inFlight (sched_run (ten_tasks @ [Done 1, Done 0])) \<le> MAX_CONCURRENT_ATTACHES \<and>
   int (length (running (sched_run (ten_tasks @ [Done 1, Done 0]))))
     = inFlight (sched_run (ten_tasks @ [Done 1, Done 0]))"
proof -
  have c: "completes_once init_scheduler (ten_tasks @ [Done 1, Done 0])"
    by (simp add: ten_tasks_def sched_eval)
  have r: "running (sched_run ten_tasks) = [0, 1, 2]"
    "queue (sched_run ten_tasks) = [3, 4, 5, 6, 7, 8, 9]"
    "running (sched_run (ten_tasks @ [Done 1, Done 0])) = [2, 3, 4]"
    by (simp_all add: ten_tasks_def sched_eval)
  from c r inFlight_never_exceeds_cap [of "ten_tasks @ [Done 1, Done 0]"]
  show ?thesis by blast
qed

text \<open>
  Claim C6. In every state the module can reach, a call of \<open>scheduleTerminalAttach\<close> for a
  pane that has a mapped task marks that task canceled and maps the pane to the new task
  instead. A queued task that is canceled, or that is not the task mapped for its pane, is
  never run, whatever happens afterwards. Hence a task still waiting in the queue when a
  new one is scheduled for its pane is never run: of the tasks scheduled for one pane
  while earlier ones wait, only the last can be.
\<close>

theorem replaced_task_never_runs:
  assumes "s = sched_run evs0"
    and "s' = snd (scheduleTerminalAttach p prio now s)"
    and "new = fst (scheduleTerminalAttach p prio now s)"
  shows "(\<forall>old. pendingByPaneId s p = Some old \<longrightarrow>
            canceled (tasks s' old) \<and> old \<noteq> new \<and> pendingByPaneId s' p = Some new) \<and>
         (\<forall>t \<in> set (queue s). canceled (tasks s t) \<or> pendingByPaneId s (AttachTask.paneId (tasks s t)) \<noteq> Some t \<longrightarrow>
            (\<forall>evs. t \<notin> set (started (foldl sched_step s evs)))) \<and>
         (\<forall>t \<in> set (queue s). AttachTask.paneId (tasks s t) = p \<longrightarrow>
            (\<forall>evs. t \<notin> set (started (foldl sched_step s' evs))))"
proof (intro conjI allI ballI impI)
  have wf: "sched_wf s"
    unfolding assms(1) by (rule sched_run_wf)
  have wf': "sched_wf s'"
    unfolding assms(2) using wf by (rule schedule_wf)
  have new: "new = nextRef s"
    unfolding assms(3) by (rule schedule_result)
  {
    fix old
    assume old: "pendingByPaneId s p = Some old"
    show "canceled (tasks s' old)" and "old \<noteq> new" and "pendingByPaneId s' p = Some new"
      unfolding assms(2) new using schedule_replaces [OF wf old] by simp_all
  }
  {
    fix t evs
    assume t: "t \<in> set (queue s)"
      and c: "canceled (tasks s t) \<or> pendingByPaneId s (AttachTask.paneId (tasks s t)) \<noteq> Some t"
    from wf t have "t < nextRef s" and "t \<notin> set (started s)"
      by (auto simp: sched_wf_def)
    with c have "superseded s t"
      by (simp add: superseded_def)
    with wf have "superseded (foldl sched_step s evs) t"
      by (rule foldl_step_superseded)
    then show "t \<notin> set (started (foldl sched_step s evs))"
      by (simp add: superseded_def)
  }
  {
    fix t evs
    assume t: "t \<in> set (queue s)" and p: "AttachTask.paneId (tasks s t) = p"
    from wf t have "t < nextRef s" and "t \<notin> set (started s)"
      by (auto simp: sched_wf_def)
    with wf p have "superseded s' t"
      unfolding assms(2) by (intro schedule_superseded) simp_all
    with wf' have "superseded (foldl sched_step s' evs) t"
      by (rule foldl_step_superseded)
    then show "t \<notin> set (started (foldl sched_step s' evs))"
      by (simp add: superseded_def)
  }
qed

theorem replaced_task_never_runs_witness:
  "pendingByPaneId (sched_run four_tasks) ''p3'' = Some 3 \<and>
   3 \<in> set (queue (sched_run four_tasks)) \<and>
   AttachTask.paneId (tasks (sched_run four_tasks) 3) = ''p3'' \<and>
   fst (scheduleTerminalAttach ''p3'' 0 6 (sched_run four_tasks)) = 4 \<and>
   canceled (tasks (snd (scheduleTerminalAttach ''p3'' 0 6 (sched_run four_tasks))) 3) \<and>
   pendingByPaneId (snd (scheduleTerminalAttach ''p3'' 0 6 (sched_run four_tasks))) ''p3'' = Some 4 \<and>
   3 \<notin> set (started (foldl sched_step (snd (scheduleTerminalAttach ''p3'' 0 6 (sched_run four_tasks)))
                     [Done 0, Done 1, Done 2])) \<and>
   started (foldl sched_step (snd (scheduleTerminalAttach ''p3'' 0 6 (sched_run four_tasks)))
                     [Done 0, Done 1, Done 2]) = [0, 1, 2, 4]"
proof -
  let ?s = "sched_run four_tasks"
  have h: "pendingByPaneId ?s ''p3'' = Some 3" "3 \<in> set (queue ?s)"
    "AttachTask.paneId (tasks ?s 3) = ''p3''"
    "fst (scheduleTerminalAttach ''p3'' 0 6 ?s) = 4"
    by (simp_all add: four_tasks_def sched_eval)
  have v: "started (foldl sched_step (snd (scheduleTerminalAttach ''p3'' 0 6 ?s))
                     [Done 0, Done 1, Done 2]) = [0, 1, 2, 4]"
    by (simp add: four_tasks_def sched_eval)
  note t = replaced_task_never_runs [OF refl refl refl, of four_tasks "''p3''" 0 6]
  from t h(1) have
    "canceled (tasks (snd (scheduleTerminalAttach ''p3'' 0 6 ?s)) 3)"
    "pendingByPaneId (snd (scheduleTerminalAttach ''p3'' 0 6 ?s)) ''p3''
       = Some (fst (scheduleTerminalAttach ''p3'' 0 6 ?s))"
    by blast+
  moreover from t h(2,3) have
    "3 \<notin> set (started (foldl sched_step (snd (scheduleTerminalAttach ''p3'' 0 6 ?s))
                      [Done 0, Done 1, Done 2]))"
    by blast
  ultimately show ?thesis
    using h v by simp
qed

section \<open>The session lifecycle at two inputs\<close>

lemmas lifecycle_eval =
  lifecycle_run_def new_SessionLifecycle_def ensureAttached_def doAttach_begin_def
  doAttach_exists_def doAttach_attached_def doAttach_catch_def attach_finished_def
  transition_def wireHandlers_def onExit_begin_def onExit_exists_def onExit_timer_def
  retry_delay_def MAX_RETRIES_def RETRY_DELAYS_MS_def lifecycle_write_def
  lifecycle_resize_def lifecycle_detach_def lifecycle_close_def lifecycle_retry_def Let_def

lemmas lifecycle_scenarios =
  attach_ok_def exit_then_reconnect_def one_failed_reconnect_def close_during_attach_def

text \<open>
  Claim C2 at its failing input. The process of a connected lifecycle exits and the backend
  session still exists: the state becomes \<open>reconnecting\<close>, the attach is retried after
  100 ms. That attempt fails once, and the state is \<open>failed\<close> at once: the retry counter is
  1, the delays of 500 ms and 1000 ms were never used, and nothing is left suspended that
  could retry. The claim says \<open>failed\<close> is reached only after three failed attempts.
\<close>

theorem reconnect_gives_up_after_first_failure:
  "state (lifecycle_run new_SessionLifecycle attach_ok) = Connected \<and>
   state (lifecycle_run new_SessionLifecycle (attach_ok @ take 2 exit_then_reconnect))
     = Reconnecting \<and>
   timers (lifecycle_run new_SessionLifecycle (attach_ok @ take 2 exit_then_reconnect)) = [100] \<and>
   state (lifecycle_run new_SessionLifecycle (attach_ok @ exit_then_reconnect)) = Connecting \<and>
   retryCount (lifecycle_run new_SessionLifecycle (attach_ok @ exit_then_reconnect)) = 1 \<and>
   state (lifecycle_run new_SessionLifecycle one_failed_reconnect) = Failed \<and>
   retryCount (lifecycle_run new_SessionLifecycle one_failed_reconnect) = 1 \<and>
   timers (lifecycle_run new_SessionLifecycle one_failed_reconnect) = [100] \<and>
   errors (lifecycle_run new_SessionLifecycle one_failed_reconnect) = [ATTACH_FAILED] \<and>
   suspended (lifecycle_run new_SessionLifecycle one_failed_reconnect) = []"
  by (simp add: lifecycle_scenarios lifecycle_eval)

text \<open>
  Claim C4 at its failing input. After \<open>close()\<close> the state is \<open>closed\<close> and \<open>disposed\<close> is
  set, but the \<open>doAttach\<close> that was in flight does not look at \<open>disposed\<close> when it resumes:
  it installs PTY 7 and moves the state from \<open>closed\<close> to \<open>connected\<close>.
\<close>

theorem close_does_not_stop_attach:
  "state (lifecycle_run new_SessionLifecycle (take 2 close_during_attach)) = Closed \<and>
   disposed (lifecycle_run new_SessionLifecycle (take 2 close_during_attach)) \<and>
   state (lifecycle_run new_SessionLifecycle close_during_attach) = Connected \<and>
   ptyProcess (lifecycle_run new_SessionLifecycle close_during_attach) = Some 7 \<and>
   disposed (lifecycle_run new_SessionLifecycle close_during_attach)"
  by (simp add: lifecycle_scenarios lifecycle_eval)

text \<open>
  What does hold. A reconnect attempt that succeeds returns the state to \<open>connected\<close> and
  the retry counter to zero, and \<open>retry()\<close> on a failed lifecycle resets the counter and
  reaches \<open>connected\<close> if the backend now attaches.
\<close>

lemma reconnect_success_and_manual_retry:
  "state (lifecycle_run new_SessionLifecycle
            (attach_ok @ exit_then_reconnect @ [Settles 0 (AttachIs (Resolved 2))])) = Connected \<and>
   retryCount (lifecycle_run new_SessionLifecycle
            (attach_ok @ exit_then_reconnect @ [Settles 0 (AttachIs (Resolved 2))])) = 0 \<and>
   state (lifecycle_run new_SessionLifecycle
            (one_failed_reconnect @ [CallRetry, Settles 0 (ExistsIs (Resolved True)),
               Settles 0 (AttachIs (Resolved 2))])) = Connected \<and>
   retryCount (lifecycle_run new_SessionLifecycle (one_failed_reconnect @ [CallRetry])) = 0"
  by (simp add: lifecycle_scenarios lifecycle_eval)

text \<open>
  After \<open>close()\<close>, every call of a public method, the exit of a PTY process and the firing
  of a retry timer leave the lifecycle closed, disposed and without PTY. Only a backend
  call that settles can take it out of that state.
\<close>

lemma only_backend_answers_leave_closed:
  assumes "disposed l" and "state l = Closed" and "ptyProcess l = None"
    and "\<And>i b. ev \<noteq> Settles i (ExistsIs b)" and "\<And>i p. ev \<noteq> Settles i (AttachIs p)"
  shows "disposed (lifecycle_step l ev) \<and> state (lifecycle_step l ev) = Closed \<and>
         ptyProcess (lifecycle_step l ev) = None"
proof (cases ev)
  case (Settles i a)
  with assms(4,5) have a: "a = TimerFired"
    by (cases a) auto
  show ?thesis
  proof (cases "i < length (suspended l)")
    case False
    with assms Settles show ?thesis by simp
  next
    case True
    with assms(1-3) show ?thesis
      unfolding Settles a
      by (cases "suspended l ! i") (simp_all add: onExit_timer_def)
  qed
next
  case (PtyExits p)
  with assms(1-3) show ?thesis
    by (simp add: onExit_begin_def Let_def split: option.splits)
qed (use assms(1-3) in \<open>simp_all add: ensureAttached_def lifecycle_detach_def lifecycle_close_def
      lifecycle_retry_def lifecycle_write_def lifecycle_resize_def transition_def Let_def\<close>)

section \<open>Properties of the terminal manager\<close>


text \<open>
  Claim C3. \<open>write\<close> throws the session-not-found error when the pane has no session or a
  session that is not alive. For an alive session with a lifecycle: in state \<open>connecting\<close>
  or \<open>reconnecting\<close> the call returns with the manager unchanged, so nothing is written and
  nothing is thrown; in any other state in which the lifecycle cannot write it throws.
\<close>

theorem write_gated_by_session_and_lifecycle:
  "((sessions m pane = None \<or> (\<exists>ref. sessions m pane = Some ref \<and> \<not> isAlive (heap m ref)))
      \<longrightarrow> manager_write pane data now m = Inl (SessionNotFound pane)) \<and>
   (\<forall>ref l. sessions m pane = Some ref \<and> isAlive (heap m ref) \<and> lifecycles m pane = Some l \<longrightarrow>
      ((state l = Connecting \<or> state l = Reconnecting) \<longrightarrow> manager_write pane data now m = Inr m) \<and>
      (\<not> canWrite l \<and> state l \<noteq> Connecting \<and> state l \<noteq> Reconnecting \<longrightarrow>
         manager_write pane data now m = Inl (CannotWriteTo pane (state l))))"
  by (auto simp: manager_write_def canWrite_def split: option.splits)

text \<open>
  The three cases: no session for the pane; an alive session whose lifecycle is
  \<open>connecting\<close>; an alive session whose lifecycle is \<open>failed\<close>.
\<close>

theorem write_gated_by_session_and_lifecycle_witness:
  "sessions init_manager ''p1'' = None \<and>
   manager_write ''p1'' [108, 115] 9 init_manager = Inl (SessionNotFound ''p1'') \<and>
   state (lifecycle_run new_SessionLifecycle [CallEnsureAttached 80 24]) = Connecting \<and>
   manager_write ''p1'' [108, 115] 9
       (manager_with (lifecycle_run new_SessionLifecycle [CallEnsureAttached 80 24]))
     = Inr (manager_with (lifecycle_run new_SessionLifecycle [CallEnsureAttached 80 24])) \<and>
   state (lifecycle_run new_SessionLifecycle one_failed_reconnect) = Failed \<and>
   manager_write ''p1'' [108, 115] 9 failed_manager = Inl (CannotWriteTo ''p1'' Failed)"
proof -
  let ?c = "lifecycle_run new_SessionLifecycle [CallEnsureAttached 80 24]"
  let ?f = "lifecycle_run new_SessionLifecycle one_failed_reconnect"
  have none: "sessions init_manager ''p1'' = None"
    by (simp add: init_manager_def)
  have alive: "sessions (manager_with l) ''p1'' = Some 0 \<and> isAlive (heap (manager_with l) 0) \<and>
    lifecycles (manager_with l) ''p1'' = Some l" for l
    by (simp add: manager_with_def init_manager_def session_p1_def blank_session_def)
  have c: "state ?c = Connecting"
    by (simp add: lifecycle_eval)
  have f: "state ?f = Failed"
    by (simp add: lifecycle_scenarios lifecycle_eval)
  then have nf: "\<not> canWrite ?f \<and> state ?f \<noteq> Connecting \<and> state ?f \<noteq> Reconnecting"
    by (simp add: canWrite_def)
  note t1 = write_gated_by_session_and_lifecycle [of init_manager "''p1''" "[108, 115]" 9]
  note t2 = write_gated_by_session_and_lifecycle [of "manager_with ?c" "''p1''" "[108, 115]" 9]
  note t3 = write_gated_by_session_and_lifecycle [of "manager_with ?f" "''p1''" "[108, 115]" 9]
  have 1: "manager_write ''p1'' [108, 115] 9 init_manager = Inl (SessionNotFound ''p1'')"
    using t1 [THEN conjunct1] none by (rule_tac mp) auto
  have "(state ?c = Connecting \<or> state ?c = Reconnecting) \<longrightarrow>
      manager_write ''p1'' [108, 115] 9 (manager_with ?c) = Inr (manager_with ?c)"
    using t2 [THEN conjunct2, THEN spec, THEN spec, THEN mp, OF alive, THEN conjunct1] .
  with c have 2: "manager_write ''p1'' [108, 115] 9 (manager_with ?c) = Inr (manager_with ?c)"
    by (rule_tac mp) auto
  have "manager_write ''p1'' [108, 115] 9 (manager_with ?f) = Inl (CannotWriteTo ''p1'' (state ?f))"
    using t3 [THEN conjunct2, THEN spec, THEN spec, THEN mp, OF alive, THEN conjunct2, THEN mp, OF nf] .
  then have 3: "manager_write ''p1'' [108, 115] 9 failed_manager = Inl (CannotWriteTo ''p1'' Failed)"
    unfolding f failed_manager_def .
  from none 1 c 2 f 3 show ?thesis
    by (intro conjI)
qed



























section \<open>Shell-crash fallback and kill escalation\<close>

lemma spawned_shells_append: "spawned_shells (xs @ ys) = spawned_shells xs @ spawned_shells ys"
  by (induction xs rule: spawned_shells.induct) simp_all

lemma exit_events_append: "exit_events (xs @ ys) = exit_events xs @ exit_events ys"
  by (induction xs rule: exit_events.induct) simp_all

lemma closeSessionHistory_quiet:
  "spawned_shells (effects (closeSessionHistory ref code m)) = spawned_shells (effects m)"
  "exit_events (effects (closeSessionHistory ref code m)) = exit_events (effects m)"
  "sessions (closeSessionHistory ref code m) = sessions m"
  "nextSession (closeSessionHistory ref code m) = nextSession m"
  "exitHandlers (closeSessionHistory ref code m) = exitHandlers m"
  by (simp_all add: closeSessionHistory_def Let_def update_session_def emit_def
        spawned_shells_append exit_events_append)

lemma recoverScrollback_existing:
  "e \<noteq> [] \<Longrightarrow> fst (recoverScrollback io (Some e)) = sanitizeTerminalScrollback e"
  by (simp add: recoverScrollback_def)

lemma createSession_fallback:
  assumes "spawnResult io = Some p" and "useFallbackShell params"
  shows "\<exists>session. createSession env io params now = Some session \<and>
           shell session = FALLBACK_SHELL env \<and> usedFallback session \<and>
           TerminalSession.scrollback session = fst (recoverScrollback io (existingScrollback params))"
  using assms
  by (cases "recoverScrollback io (existingScrollback params)")
     (simp add: createSession_def Let_def)

text \<open>
  Claim C9. A non-persistent session's process exits. If the exit code is not zero, the
  session is younger than the crash threshold and it has not used the fallback shell, then
  (the spawn of the fallback shell succeeding) exactly one shell is spawned, the fallback
  shell; the pane is registered with the new session, which has used the fallback; the
  parameters of the new session carry the accumulated scrollback as \<open>existingScrollback\<close>
  (\<open>null\<close> if it is empty), and a non-empty one becomes, sanitized, the scrollback of the
  new session; no exit event is emitted. In every other case (and if the spawn of the
  fallback shell throws) no shell is spawned, no session is created and the exit event is
  emitted.
\<close>

theorem crashed_shell_respawns_with_fallback:
  assumes "\<not> isPersistentBackend (heap m ref)"
    and "pane = CreateSessionParams.paneId params"
    and "m' = onSessionExit env io ref params exitCode signal now m"
    and "crashed \<longleftrightarrow> now - startTime (heap m ref) < SHELL_CRASH_THRESHOLD_MS env \<and> exitCode \<noteq> 0
           \<and> \<not> usedFallback (heap m ref)"
    and "accumulated = TerminalSession.scrollback (heap m ref)"
  shows
  "(crashed \<and> spawnResult io \<noteq> None \<longrightarrow>
      spawned_shells (effects m') = spawned_shells (effects m) @ [FALLBACK_SHELL env] \<and>
      exit_events (effects m') = exit_events (effects m) \<and>
      sessions m' pane = Some (nextSession m) \<and>
      shell (heap m' (nextSession m)) = FALLBACK_SHELL env \<and>
      usedFallback (heap m' (nextSession m)) \<and>
      exitHandlers m' = exitHandlers m @
        [(nextSession m, params\<lparr>existingScrollback := (if accumulated = [] then None else Some accumulated),
                                useFallbackShell := True\<rparr>)] \<and>
      (accumulated \<noteq> [] \<longrightarrow>
         TerminalSession.scrollback (heap m' (nextSession m)) = sanitizeTerminalScrollback accumulated)) \<and>
   (\<not> crashed \<or> spawnResult io = None \<longrightarrow>
      spawned_shells (effects m') = spawned_shells (effects m) \<and>
      exit_events (effects m') = exit_events (effects m) @ [(pane, exitCode, signal)] \<and>
      nextSession m' = nextSession m)"
proof (unfold assms(5), intro conjI impI)
  let ?acc = "TerminalSession.scrollback (heap m ref)"
  assume c: "crashed \<and> spawnResult io \<noteq> None"
  then obtain p where p: "spawnResult io = Some p" by auto
  let ?params = "params\<lparr>existingScrollback := (if ?acc = [] then None else Some ?acc),
                                useFallbackShell := True\<rparr>"
  let ?m2 = "(update_session ref (\<lambda>s. s\<lparr>isAlive := False, batcherDisposed := True\<rparr>) m)
               \<lparr>osc7Buffers := (osc7Buffers m)(pane := None)\<rparr>"
  let ?m3 = "closeSessionHistory ref (Some exitCode) ?m2"
  let ?m4 = "?m3\<lparr>sessions := (sessions ?m3)(pane := None)\<rparr>"
  have "useFallbackShell ?params" by simp
  with p obtain session where cs: "createSession env io ?params now = Some session"
    and sh: "shell session = FALLBACK_SHELL env" and uf: "usedFallback session"
    and sb0: "TerminalSession.scrollback session = fst (recoverScrollback io (existingScrollback ?params))"
    using createSession_fallback [of io p ?params env now] by blast
  have sb: "?acc \<noteq> [] \<longrightarrow>
      TerminalSession.scrollback session = sanitizeTerminalScrollback ?acc"
    using sb0 by (simp add: recoverScrollback_existing)
  have m': "m' = snd (doCreateSession env io ?params now ?m4)"
    using c assms(1-4) cs
    by (simp add: onSessionExit_def Let_def update_session_def doCreateSession_def)
  show "spawned_shells (effects m') = spawned_shells (effects m) @ [FALLBACK_SHELL env]"
    unfolding m' using cs sh
    by (simp add: doCreateSession_def Let_def emit_def spawned_shells_append
          closeSessionHistory_quiet update_session_def)
  show "exit_events (effects m') = exit_events (effects m)"
    unfolding m' using cs
    by (simp add: doCreateSession_def Let_def emit_def exit_events_append
          closeSessionHistory_quiet update_session_def)
  show "sessions m' pane = Some (nextSession m)"
    unfolding m' using cs assms(2)
    by (simp add: doCreateSession_def Let_def emit_def closeSessionHistory_quiet update_session_def)
  show "shell (heap m' (nextSession m)) = FALLBACK_SHELL env"
    unfolding m' using cs sh
    by (simp add: doCreateSession_def Let_def emit_def closeSessionHistory_quiet update_session_def)
  show "usedFallback (heap m' (nextSession m))"
    unfolding m' using cs uf
    by (simp add: doCreateSession_def Let_def emit_def closeSessionHistory_quiet update_session_def)
  show "exitHandlers m' = exitHandlers m @ [(nextSession m, ?params)]"
    unfolding m' using cs
    by (simp add: doCreateSession_def Let_def emit_def closeSessionHistory_quiet update_session_def)
  show "TerminalSession.scrollback (heap m' (nextSession m)) = sanitizeTerminalScrollback ?acc"
    if "?acc \<noteq> []"
    unfolding m' using cs sb that
    by (simp add: doCreateSession_def Let_def emit_def closeSessionHistory_quiet update_session_def)
next
  let ?acc = "TerminalSession.scrollback (heap m ref)"
  assume n: "\<not> crashed \<or> spawnResult io = None"
  let ?params = "params\<lparr>existingScrollback := (if ?acc = [] then None else Some ?acc),
                                useFallbackShell := True\<rparr>"
  have none: "spawnResult io = None \<Longrightarrow> createSession env io ?params now = None"
    by (simp add: createSession_def Let_def split: prod.splits)
  show "spawned_shells (effects m') = spawned_shells (effects m)"
    using n assms(1-4) none
    by (auto simp: onSessionExit_def Let_def update_session_def doCreateSession_def emit_def
          spawned_shells_append closeSessionHistory_quiet)
  show "exit_events (effects m') = exit_events (effects m) @ [(pane, exitCode, signal)]"
    using n assms(1-4) none
    by (auto simp: onSessionExit_def Let_def update_session_def doCreateSession_def emit_def
          exit_events_append closeSessionHistory_quiet)
  show "nextSession m' = nextSession m"
    using n assms(1-4) none
    by (auto simp: onSessionExit_def Let_def update_session_def doCreateSession_def emit_def
          closeSessionHistory_quiet)
qed


lemmas exit_eval =
  env0_def io_spawning_def internal_p1_def spawned_manager_def crashed_manager_def
  kill_started_def kill_after_exit_def kill_after_timer_def crashed_again_manager_def init_manager_def blank_session_def
  doCreateSession_def createSession_def recoverScrollback_def or_default_def
  closeSessionHistory_def onSessionExit_def killSessionWithTimeout_def cleanup_def
  exitHandler_def deliver_exits_def sigterm_timer_def sigkill_timer_def
  killByWorkspaceId_result_def update_session_def emit_def Let_def

text \<open>
  Claim C8 at its failing input. \<open>killSessionWithTimeout\<close> sends SIGTERM to a session that
  was spawned less than the crash threshold ago, and the shell exits with code 1. The exit
  handler marks the session dead and respawns it with the fallback shell, emitting no exit
  event. When the 2 s timer fires, the session is not alive, so the callback returns
  without arming the second timer and without resolving: the promise is pending, no timer
  is left, and \<open>killByWorkspaceId\<close> has no result. The pane has a new alive session.
\<close>

theorem kill_never_resolves_after_fallback_respawn:
  "isAlive (heap spawned_manager 0) \<and>
   resolvedWith (fst kill_started) = None \<and> sigtermTimeout (fst kill_started) \<and>
   exit_events (effects (snd kill_after_exit)) = [] \<and>
   \<not> isAlive (heap (snd kill_after_exit) 0) \<and>
   resolvedWith (fst kill_after_timer) = None \<and>
   \<not> sigtermTimeout (fst kill_after_timer) \<and> \<not> sigkillTimeout (fst kill_after_timer) \<and>
   killByWorkspaceId_result [fst kill_after_timer] = None \<and>
   spawned_shells (effects (snd kill_after_timer)) = [''/bin/zsh'', ''/bin/sh''] \<and>
   sessions (snd kill_after_timer) ''p1'' = Some 1 \<and> isAlive (heap (snd kill_after_timer) 1)"
  by (simp add: exit_eval sanitizer_eval)


text \<open>
  The stages of the escalation where they are reached: the first timer arms the second if
  the session is still alive, the second forces the session dead and resolves with
  \<open>false\<close>, and an exit event resolves with \<open>true\<close>.
\<close>

lemma escalation_stages:
  "isAlive (heap m (killSession k)) \<Longrightarrow> \<not> resolved k \<Longrightarrow> sigtermTimeout k \<Longrightarrow>
     sigkillTimeout (fst (sigterm_timer t k m)) \<and> resolvedWith (fst (sigterm_timer t k m)) = resolvedWith k"
  "\<not> resolved k \<Longrightarrow> sigkillTimeout k \<Longrightarrow>
     resolvedWith (fst (sigkill_timer k m)) = Some False \<and>
     \<not> isAlive (heap (snd (sigkill_timer k m)) (killSession k))"
  "\<not> resolved k \<Longrightarrow> listening k \<Longrightarrow> resolvedWith (exitHandler k) = Some True"
  by (auto simp: sigterm_timer_def sigkill_timer_def exitHandler_def cleanup_def Let_def
        closeSessionHistory_def update_session_def emit_def)

text \<open>
  The session of pane \<open>p1\<close> crashes after 500 ms and is respawned with \<open>/bin/sh\<close>, keeping its
  scrollback \<open>hi\<close>; when the fallback session crashes too, the exit event is emitted.
\<close>

theorem crashed_shell_respawns_with_fallback_witness:
  "\<not> isPersistentBackend (heap spawned_manager 0) \<and>
   spawned_shells (effects crashed_manager) = [''/bin/zsh'', ''/bin/sh''] \<and>
   exit_events (effects crashed_manager) = [] \<and>
   sessions crashed_manager ''p1'' = Some 1 \<and>
   TerminalSession.scrollback (heap crashed_manager 1) = sanitizeTerminalScrollback [104, 105] \<and>
   usedFallback (heap crashed_manager 1) \<and>
   spawned_shells (effects crashed_again_manager) = [''/bin/zsh'', ''/bin/sh''] \<and>
   exit_events (effects crashed_again_manager) = [(''p1'', 1, None)]"
proof -
  let ?m = "update_session 0 (\<lambda>s. s\<lparr>TerminalSession.scrollback := [104, 105]\<rparr>) spawned_manager"
  let ?io = "io_spawning (Some 2)"
  let ?p' = "internal_p1\<lparr>existingScrollback := Some [104, 105], useFallbackShell := True\<rparr>"
  have np: "\<not> isPersistentBackend (heap ?m 0)"
    by (simp add: exit_eval)
  have pane: "''p1'' = CreateSessionParams.paneId internal_p1"
    "''p1'' = CreateSessionParams.paneId ?p'"
    by (simp_all add: internal_p1_def)
  have cr: "500 - startTime (heap ?m 0) < SHELL_CRASH_THRESHOLD_MS env0 \<and> (1::int) \<noteq> 0 \<and>
      \<not> usedFallback (heap ?m 0)"
    by (simp add: exit_eval)
  have acc: "TerminalSession.scrollback (heap ?m 0) = [104, 105]" "nextSession ?m = 1"
    "effects ?m = [PtySpawn 1 ''/bin/zsh'']"
    by (simp_all add: exit_eval)
  have fb: "FALLBACK_SHELL env0 = ''/bin/sh''"
    by (simp add: env0_def)
  note t1 = crashed_shell_respawns_with_fallback [where m = ?m and ref = 0
      and params = internal_p1 and pane = "''p1''" and env = env0 and io = ?io
      and exitCode = 1 and signal = None and now = 500,
      OF np pane(1) refl refl refl, THEN conjunct1, THEN mp, unfolded acc fb,
      folded crashed_manager_def]
  have h1: "(500 - startTime (heap ?m 0) < SHELL_CRASH_THRESHOLD_MS env0 \<and> (1::int) \<noteq> 0 \<and>
      \<not> usedFallback (heap ?m 0)) \<and> spawnResult ?io \<noteq> None"
    using cr by (simp add: io_spawning_def)
  note c1 = t1 [OF h1]
  have 1: "spawned_shells (effects crashed_manager) = [''/bin/zsh'', ''/bin/sh'']"
    using c1 [THEN conjunct1] by simp
  have 2: "exit_events (effects crashed_manager) = []"
    using c1 [THEN conjunct2, THEN conjunct1] by simp
  have 3: "sessions crashed_manager ''p1'' = Some 1"
    using c1 [THEN conjunct2, THEN conjunct2, THEN conjunct1] .
  have 4: "usedFallback (heap crashed_manager 1)"
    using c1 [THEN conjunct2, THEN conjunct2, THEN conjunct2, THEN conjunct2, THEN conjunct1] .
  have 5: "TerminalSession.scrollback (heap crashed_manager 1) = sanitizeTerminalScrollback [104, 105]"
    using c1 [THEN conjunct2, THEN conjunct2, THEN conjunct2, THEN conjunct2, THEN conjunct2,
        THEN conjunct2] by simp
  have np2: "\<not> isPersistentBackend (heap crashed_manager 1)"
    by (simp add: exit_eval)
  have h2: "\<not> (600 - startTime (heap crashed_manager 1) < SHELL_CRASH_THRESHOLD_MS env0 \<and>
      (1::int) \<noteq> 0 \<and> \<not> usedFallback (heap crashed_manager 1)) \<or>
      spawnResult (io_spawning (Some 3)) = None"
    using 4 by simp
  note c2 = crashed_shell_respawns_with_fallback [where m = crashed_manager and ref = 1
      and params = ?p' and pane = "''p1''" and env = env0 and io = "io_spawning (Some 3)"
      and exitCode = 1 and signal = None and now = 600,
      OF np2 pane(2) refl refl refl, THEN conjunct2, THEN mp, OF h2,
      folded crashed_again_manager_def]
  have 6: "spawned_shells (effects crashed_again_manager) = [''/bin/zsh'', ''/bin/sh'']"
    using c2 [THEN conjunct1] 1 by simp
  have 7: "exit_events (effects crashed_again_manager) = [(''p1'', 1, None)]"
    using c2 [THEN conjunct2, THEN conjunct1] 2 by simp
  have 0: "\<not> isPersistentBackend (heap spawned_manager 0)"
    by (simp add: exit_eval)
  from 0 1 2 3 5 4 6 7 show ?thesis
    by (intro conjI)
qed

end
